theory Spec2Isabelle
  imports Main
begin

section \<open>Data model (poolparty.go, lines 16-59)\<close>

text \<open>
  A logger is either absent (Go's nil, \<open>None\<close>), the one \<open>log15.New()\<close> creates, or one
  the caller supplied. Log output is not part of the model.
\<close>

datatype logger = Log15New | CallerLogger nat

text \<open>
  Go error values: the two exported sentinels, \<open>errors.New msg\<close>,
  \<open>fmt.Errorf (msg ++ ": %w") err\<close>, and an error returned by the operating system or by
  the JSON codec.
\<close>

datatype error =
    ErrWorkerPoolBusy
  | ErrWorkerPoolClosed
  | ErrorsNew string
  | Errorf string error
  | IOError string

record PoolConfig =
  Logger :: "logger option"
  NumWorkers :: int
  WorkerProc :: "string list"
  WorkerRequestTimeout :: int

record JanetRequest =
  RequestID :: string
  Headers :: string
  Body :: string

text \<open>The response's \<open>Headers\<close> and \<open>Body\<close> fields, renamed apart from the request's.\<close>

record JanetResponse =
  Status :: int
  RespHeaders :: "string list"
  RespBody :: string

text \<open>\<open>JanetResponse{}\<close>, the zero value.\<close>

definition JanetResponse_zero :: JanetResponse where
  "JanetResponse_zero = \<lparr>Status = 0, RespHeaders = [], RespBody = []\<rparr>"

text \<open>
  A response channel is made fresh by each Dispatch call (line 227), so it is identified
  by the index of that call.
\<close>

record workRequest =
  Req :: JanetRequest
  RespChan :: nat

record workResponse =
  Err :: "error option"
  Resp :: JanetResponse

subsection \<open>The goroutine of one worker loop (lines 90-222)\<close>

text \<open>
  The control points of the goroutine \<open>spawnWorker\<close> starts. Each one is a place where
  the goroutine can be found between two steps:
  \<^item> \<open>WSpawn\<close>: top of the outer loop (line 93), about to create pipes and the process;
  \<^item> \<open>WReady\<close>: the select of lines 149-153;
  \<^item> \<open>WEncode\<close>: inside \<open>encoder.Encode\<close> (line 163);
  \<^item> \<open>WEncodeErr\<close>: the select of lines 166-172;
  \<^item> \<open>WDecode\<close>: inside \<open>decoder.Decode\<close> (line 176);
  \<^item> \<open>WDecodeErr\<close>: the select of lines 178-184;
  \<^item> \<open>WSendResp\<close>: the select of lines 187-191;
  \<^item> \<open>WStopTimer\<close>: before \<open>workerRequestTimeoutTimer.Stop()\<close> (line 194);
  \<^item> \<open>WWait\<close>: the inner function has returned and its deferred closes have run;
    before \<open>cmd.Wait()\<close> (lines 204-206);
  \<^item> \<open>WBackoff\<close>: the select of lines 215-219;
  \<^item> \<open>WExited\<close>: the goroutine has returned and \<open>p.wg.Done()\<close> has run.
\<close>

datatype wpc =
    WSpawn | WReady | WEncode | WEncodeErr | WDecode | WDecodeErr
  | WSendResp | WStopTimer | WWait | WBackoff | WExited

text \<open>
  \<open>cmd\<close>: nil, created but not started (\<open>cmd.Start\<close> failed), a running child, or a
  child whose exit \<open>cmd.Wait\<close> has collected.
\<close>

datatype cmd_state = CmdNil | CmdNotStarted | CmdRunning | CmdWaited

text \<open>
  \<open>workerRequestTimeoutTimer\<close>: not created, armed to fire at a time, fired (its
  function has run), or stopped before it fired.
\<close>

datatype timer_state = NoTimer | Armed int | Fired | Stopped

text \<open>
  The local variables of the goroutine. \<open>p1\<close> to \<open>p4\<close> say whether the host holds
  that pipe end open; \<open>wake\<close> is the time at which \<open>time.After(200ms)\<close> delivers.
\<close>

record worker =
  pc :: wpc
  p1 :: bool
  p2 :: bool
  p3 :: bool
  p4 :: bool
  cmd :: cmd_state
  workReq :: "workRequest option"
  timer :: timer_state
  out :: workResponse
  wake :: int

definition worker_init :: worker where
  "worker_init = \<lparr>pc = WSpawn, p1 = False, p2 = False, p3 = False, p4 = False,
     cmd = CmdNil, workReq = None, timer = NoTimer,
     out = \<lparr>Err = None, Resp = JanetResponse_zero\<rparr>, wake = 0\<rparr>"

subsection \<open>One call of Dispatch (lines 225-254)\<close>

text \<open>
  A call is in its first select (lines 237-243), in its second select (lines 245-253),
  or has returned the pair \<open>(JanetResponse, error)\<close>.
\<close>

datatype call_state = Handoff | Waiting | Returned JanetResponse "error option"

record call =
  req :: JanetRequest
  deadline :: int
  st :: call_state

subsection \<open>The pool and what runs on it\<close>

text \<open>
  \<open>cfg\<close>, \<open>ctx_done\<close> (whether \<open>workerCtx\<close> is cancelled) and \<open>wg\<close> are the fields of
  the struct \<open>WorkerPool\<close>; the unbuffered channel \<open>dispatch\<close> holds no value and is
  represented by the joint step of a sender and a receiver. \<open>workers\<close> are the goroutines
  started by \<open>spawnWorker\<close>, \<open>calls\<close> the calls of Dispatch made so far, \<open>closing\<close> the
  number of calls of Close blocked in \<open>p.wg.Wait()\<close>, \<open>closed\<close> the number of calls of
  Close that have returned, and \<open>now\<close> the clock, in nanoseconds since the pool was made.
\<close>

record WorkerPool =
  cfg :: PoolConfig
  ctx_done :: bool
  wg :: int
  workers :: "worker list"
  calls :: "call list"
  closing :: nat
  closed :: nat
  now :: int

section \<open>NewWorkerPool (lines 61-86) and spawnWorker (lines 88-92)\<close>

definition spawnWorker :: "WorkerPool \<Rightarrow> WorkerPool" where
  "spawnWorker p = p\<lparr>wg := wg p + 1, workers := workers p @ [worker_init]\<rparr>"

text \<open>The loop \<open>for i := 0; i < cfg.NumWorkers; i++ { p.spawnWorker() }\<close>.\<close>

function spawn_loop :: "int \<Rightarrow> int \<Rightarrow> WorkerPool \<Rightarrow> WorkerPool" where
  "spawn_loop i n p = (if i < n then spawn_loop (i + 1) n (spawnWorker p) else p)"
  by pat_completeness auto
termination
  by (relation "measure (\<lambda>(i, n, p). nat (n - i))") auto

declare spawn_loop.simps [simp del]

definition NewWorkerPool :: "PoolConfig \<Rightarrow> error + WorkerPool" where
  "NewWorkerPool c =
     (let c = (if Logger c = None then c\<lparr>Logger := Some Log15New\<rparr> else c) in
      if NumWorkers c < 0 then Inl (ErrorsNew ''pool needs at least one worker'')
      else if int (length (WorkerProc c)) \<le> 0
        then Inl (ErrorsNew ''pool worker proc must not be empty'')
      else Inr (spawn_loop 0 (NumWorkers c)
             \<lparr>cfg = c, ctx_done = False, wg = 0, workers = [], calls = [],
              closing = 0, closed = 0, now = 0\<rparr>))"

section \<open>Steps of the goroutines\<close>

text \<open>
  Leaving the inner function literal (any \<open>return\<close> of lines 97-199 after the pipes
  exist): the deferred \<open>p4.Close()\<close>, \<open>p3.Close()\<close>, \<open>p2.Close()\<close>, \<open>p1.Close()\<close>
  run, and the goroutine is before \<open>cmd.Wait()\<close>.
\<close>

definition leave_inner :: "worker \<Rightarrow> worker" where
  "leave_inner w = w\<lparr>p4 := False, p3 := False, p2 := False, p1 := False, pc := WWait\<rparr>"

text \<open>
  What the operating system answers while a worker is made (lines 99-136): the first
  \<open>os.Pipe\<close> fails, the second one fails, \<open>cmd.Start\<close> fails, or the child runs.
\<close>

datatype spawn_outcome = Pipe1Failed | Pipe2Failed | StartFailed | Started

text \<open>
  Lines 94-144, from the top of the outer loop to the first select or to the return of
  the inner function. \<open>cmd\<close> is declared anew (nil); the timer of an earlier round closes
  over the earlier round's pipes, so the new round starts without one.
\<close>

fun worker_spawn :: "spawn_outcome \<Rightarrow> worker \<Rightarrow> worker" where
  "worker_spawn Pipe1Failed w = w\<lparr>cmd := CmdNil, timer := NoTimer, pc := WWait\<rparr>"
| "worker_spawn Pipe2Failed w =
     leave_inner (w\<lparr>cmd := CmdNil, timer := NoTimer, p1 := True, p2 := True\<rparr>)"
| "worker_spawn StartFailed w =
     leave_inner (w\<lparr>cmd := CmdNotStarted, timer := NoTimer,
                    p1 := True, p2 := True, p3 := True, p4 := True\<rparr>)"
| "worker_spawn Started w =
     w\<lparr>cmd := CmdRunning, timer := NoTimer,
       p1 := False, p2 := True, p3 := True, p4 := False, pc := WReady\<rparr>"

text \<open>
  The events of the system. Each is one step of one goroutine (or the joint step of the
  two ends of an unbuffered channel), chosen by the scheduler and the environment:
  \<^item> \<open>Tick d\<close>: \<open>d\<close> nanoseconds pass;
  \<^item> \<open>Call r t\<close>: some goroutine calls \<open>Dispatch(r, t)\<close>, which makes the response
    channel, the work item and the timer (lines 227-235) and comes to its first select;
  \<^item> \<open>DispatchTimeout c\<close>: call \<open>c\<close> takes \<open>case <-t.C\<close> (line 238);
  \<^item> \<open>DispatchClosed c\<close>: call \<open>c\<close> takes \<open>case <-p.workerCtx.Done()\<close> (line 240 or 246);
  \<^item> \<open>Accept c w\<close>: call \<open>c\<close> sends on \<open>p.dispatch\<close> (line 242) and worker \<open>w\<close> receives
    (line 152), then arms the timer (line 157);
  \<^item> \<open>Reply w\<close>: worker \<open>w\<close> sends on \<open>workReq.RespChan\<close> (line 169, 181 or 190) and the
    call receives (line 248);
  \<^item> \<open>WorkerDone w\<close>: worker \<open>w\<close> takes a \<open>case <-p.workerCtx.Done()\<close> (line 150, 167,
    179, 188 or 216);
  \<^item> \<open>Spawn w o\<close>: lines 94-144; \<open>Encode w e\<close>: \<open>encoder.Encode\<close> returns \<open>e\<close> (line 163);
    \<open>Decode w r\<close>: \<open>decoder.Decode\<close> returns an error or has filled in \<open>resp\<close> (line 176);
  \<^item> \<open>GuardFires w\<close>: the function given to \<open>time.AfterFunc\<close> runs (lines 158-160);
  \<^item> \<open>StopGuard w\<close>: line 194; \<open>CmdWait w\<close>: lines 204-214; \<open>BackoffOver w\<close>: line 218;
  \<^item> \<open>CloseCall\<close>: some goroutine calls Close, runs \<open>p.cancelWorkers()\<close> (line 257) and
    reaches \<open>p.wg.Wait()\<close>; \<open>CloseReturn\<close>: one \<open>p.wg.Wait()\<close> returns (line 258).
\<close>

datatype event =
    Tick int
  | Call JanetRequest int
  | DispatchTimeout nat
  | DispatchClosed nat
  | Accept nat nat
  | Reply nat
  | WorkerDone nat
  | Spawn nat spawn_outcome
  | Encode nat "error option"
  | Decode nat "error + JanetResponse"
  | GuardFires nat
  | StopGuard nat
  | CmdWait nat
  | BackoffOver nat
  | CloseCall
  | CloseReturn

definition set_worker :: "nat \<Rightarrow> worker \<Rightarrow> WorkerPool \<Rightarrow> WorkerPool" where
  "set_worker i w s = s\<lparr>workers := (workers s)[i := w]\<rparr>"

definition set_call :: "nat \<Rightarrow> call_state \<Rightarrow> WorkerPool \<Rightarrow> WorkerPool" where
  "set_call c x s = s\<lparr>calls := (calls s)[c := (calls s ! c)\<lparr>st := x\<rparr>]\<rparr>"

text \<open>Lines 249-252: what Dispatch returns for the value received on its channel.\<close>

definition dispatch_result :: "workResponse \<Rightarrow> call_state" where
  "dispatch_result r =
     (case Err r of
        Some e \<Rightarrow> Returned JanetResponse_zero (Some (Errorf ''request failed'' e))
      | None \<Rightarrow> Returned (Resp r) None)"

text \<open>
  A step of one worker alone, where nothing but the worker's own variables changes
  (the clock and the configuration are read). \<open>None\<close>: the event is not enabled.
  What \<open>Encode\<close> and \<open>Decode\<close> return is the environment's choice in every state:
  a call may still succeed when the guard has fired (the write was done, or the reply
  was read, before the pipes were closed), which is the case line 193 is written for.
  The guard may fire whenever its time has come, also after the exchange has ended
  without a call of \<open>Stop()\<close>; it closes the pipe ends of its own round only.
\<close>

fun worker_step :: "PoolConfig \<Rightarrow> int \<Rightarrow> event \<Rightarrow> worker \<Rightarrow> worker option" where
  "worker_step c t (Spawn i oc) w =
     (if pc w = WSpawn then Some (worker_spawn oc w) else None)"
| "worker_step c t (Encode i None) w =
     (if pc w = WEncode then Some (w\<lparr>pc := WDecode\<rparr>) else None)"
| "worker_step c t (Encode i (Some e)) w =
     (if pc w = WEncode
      then Some (w\<lparr>out := \<lparr>Err = Some (Errorf ''error writing to worker process'' e),
                              Resp = JanetResponse_zero\<rparr>, pc := WEncodeErr\<rparr>)
      else None)"
| "worker_step c t (Decode i (Inr r)) w =
     (if pc w = WDecode
      then Some (w\<lparr>out := \<lparr>Err = None, Resp = r\<rparr>, pc := WSendResp\<rparr>)
      else None)"
| "worker_step c t (Decode i (Inl e)) w =
     (if pc w = WDecode
      then Some (w\<lparr>out := \<lparr>Err = Some (Errorf ''decoding worker process response'' e),
                              Resp = JanetResponse_zero\<rparr>, pc := WDecodeErr\<rparr>)
      else None)"
| "worker_step c t (GuardFires i) w =
     (case timer w of
        Armed d \<Rightarrow> if d \<le> t then Some (w\<lparr>p2 := False, p3 := False, timer := Fired\<rparr>)
                   else None
      | _ \<Rightarrow> None)"
| "worker_step c t (StopGuard i) w =
     (if pc w = WStopTimer
      then (case timer w of
              Armed d \<Rightarrow> Some (w\<lparr>timer := Stopped, pc := WReady\<rparr>)
            | _ \<Rightarrow> Some (leave_inner w))
      else None)"
| "worker_step c t (CmdWait i) w =
     (if pc w = WWait
      then Some (w\<lparr>cmd := (if cmd w = CmdRunning then CmdWaited else cmd w),
                    wake := t + 200000000, pc := WBackoff\<rparr>)
      else None)"
| "worker_step c t (BackoffOver i) w =
     (if pc w = WBackoff \<and> wake w \<le> t then Some (w\<lparr>pc := WSpawn\<rparr>) else None)"
| "worker_step c t _ w = None"

text \<open>The selects in which a worker offers a value on the response channel.\<close>

definition sending :: "wpc \<Rightarrow> bool" where
  "sending x = (x = WEncodeErr \<or> x = WDecodeErr \<or> x = WSendResp)"

text \<open>
  After the send: the two error selects return (lines 171, 183), the success select
  goes on to line 194.
\<close>

definition after_send :: "worker \<Rightarrow> worker" where
  "after_send w = (if pc w = WSendResp then w\<lparr>pc := WStopTimer\<rparr> else leave_inner w)"

text \<open>A step of worker \<open>i\<close> alone, placed in the system.\<close>

definition local_step :: "nat \<Rightarrow> event \<Rightarrow> WorkerPool \<Rightarrow> WorkerPool option" where
  "local_step i e s =
     (if i < length (workers s)
      then (case worker_step (cfg s) (now s) e (workers s ! i) of
              None \<Rightarrow> None
            | Some w \<Rightarrow> Some (set_worker i w s))
      else None)"

text \<open>One step of the system. \<open>None\<close>: the event is not enabled in this state.\<close>

fun step :: "event \<Rightarrow> WorkerPool \<Rightarrow> WorkerPool option" where
  "step (Tick d) s = (if 0 \<le> d then Some (s\<lparr>now := now s + d\<rparr>) else None)"
| "step (Call r t) s =
     Some (s\<lparr>calls := calls s @ [\<lparr>req = r, deadline = now s + t, st = Handoff\<rparr>]\<rparr>)"
| "step (DispatchTimeout c) s =
     (if c < length (calls s) \<and> st (calls s ! c) = Handoff \<and> deadline (calls s ! c) \<le> now s
      then Some (set_call c (Returned JanetResponse_zero (Some ErrWorkerPoolBusy)) s)
      else None)"
| "step (DispatchClosed c) s =
     (if c < length (calls s) \<and> ctx_done s
         \<and> (st (calls s ! c) = Handoff \<or> st (calls s ! c) = Waiting)
      then Some (set_call c (Returned JanetResponse_zero (Some ErrWorkerPoolClosed)) s)
      else None)"
| "step (Accept c i) s =
     (if c < length (calls s) \<and> st (calls s ! c) = Handoff
         \<and> i < length (workers s) \<and> pc (workers s ! i) = WReady
      then Some (set_call c Waiting
             (set_worker i ((workers s ! i)
                \<lparr>workReq := Some \<lparr>Req = req (calls s ! c), RespChan = c\<rparr>,
                 timer := Armed (now s + WorkerRequestTimeout (cfg s)),
                 pc := WEncode\<rparr>) s))
      else None)"
| "step (Reply i) s =
     (if i < length (workers s) \<and> sending (pc (workers s ! i))
      then (case workReq (workers s ! i) of
              None \<Rightarrow> None
            | Some q \<Rightarrow>
                if RespChan q < length (calls s) \<and> st (calls s ! RespChan q) = Waiting
                then Some (set_call (RespChan q) (dispatch_result (out (workers s ! i)))
                       (set_worker i (after_send (workers s ! i)) s))
                else None)
      else None)"
| "step (WorkerDone i) s =
     (if i < length (workers s) \<and> ctx_done s
      then (if pc (workers s ! i) = WReady \<or> sending (pc (workers s ! i))
            then Some (set_worker i (leave_inner (workers s ! i)) s)
            else if pc (workers s ! i) = WBackoff
            then Some ((set_worker i ((workers s ! i)\<lparr>pc := WExited\<rparr>) s)\<lparr>wg := wg s - 1\<rparr>)
            else None)
      else None)"
| "step CloseCall s = Some (s\<lparr>ctx_done := True, closing := closing s + 1\<rparr>)"
| "step CloseReturn s =
     (if 0 < closing s \<and> wg s = 0
      then Some (s\<lparr>closing := closing s - 1, closed := closed s + 1\<rparr>)
      else None)"
| "step (Spawn i x) s = local_step i (Spawn i x) s"
| "step (Encode i x) s = local_step i (Encode i x) s"
| "step (Decode i x) s = local_step i (Decode i x) s"
| "step (GuardFires i) s = local_step i (GuardFires i) s"
| "step (StopGuard i) s = local_step i (StopGuard i) s"
| "step (CmdWait i) s = local_step i (CmdWait i) s"
| "step (BackoffOver i) s = local_step i (BackoffOver i) s"

text \<open>A run: the events are taken in order; \<open>None\<close> when one of them is not enabled.\<close>

fun run :: "event list \<Rightarrow> WorkerPool \<Rightarrow> WorkerPool option" where
  "run [] s = Some s"
| "run (e # es) s = (case step e s of None \<Rightarrow> None | Some s' \<Rightarrow> run es s')"

text \<open>A run of a pool made by NewWorkerPool from a configuration.\<close>

definition pool_run :: "PoolConfig \<Rightarrow> event list \<Rightarrow> WorkerPool option" where
  "pool_run c es = (case NewWorkerPool c of Inl e \<Rightarrow> None | Inr p \<Rightarrow> run es p)"

section \<open>Invariants of the system\<close>

text \<open>
  What holds of a worker at each control point: before a process is made, while backing
  off and after the goroutine's exit no pipe end is open and no child runs; before
  \<open>cmd.Wait()\<close> no pipe end is open; from the first select on, the child runs and the
  ends given to it are closed; while a request is served the worker holds the request and
  a timer that was armed; in an error select the value offered carries an error and the
  zero response, in the success select it carries no error.
\<close>

definition released :: "worker \<Rightarrow> bool" where
  "released w = (\<not> p1 w \<and> \<not> p2 w \<and> \<not> p3 w \<and> \<not> p4 w)"

text \<open>The control points at which a worker holds a request that is not answered yet.\<close>

definition busy :: "wpc \<Rightarrow> bool" where
  "busy x = (x = WEncode \<or> x = WDecode \<or> sending x)"

definition attached :: "worker \<Rightarrow> bool" where
  "attached w = (cmd w = CmdRunning \<and> \<not> p1 w \<and> \<not> p4 w)"

definition engaged :: "worker \<Rightarrow> bool" where
  "engaged w = (attached w \<and> workReq w \<noteq> None \<and> timer w \<noteq> NoTimer \<and> timer w \<noteq> Stopped)"

fun pc_ok :: "wpc \<Rightarrow> worker \<Rightarrow> bool" where
  "pc_ok WSpawn w = (released w \<and> cmd w \<noteq> CmdRunning)"
| "pc_ok WBackoff w = (released w \<and> cmd w \<noteq> CmdRunning)"
| "pc_ok WExited w = (released w \<and> cmd w \<noteq> CmdRunning)"
| "pc_ok WWait w = released w"
| "pc_ok WReady w = attached w"
| "pc_ok WEncode w = engaged w"
| "pc_ok WDecode w = engaged w"
| "pc_ok WStopTimer w = engaged w"
| "pc_ok WEncodeErr w =
     (engaged w \<and> Err (out w) \<noteq> None \<and> Resp (out w) = JanetResponse_zero)"
| "pc_ok WDecodeErr w =
     (engaged w \<and> Err (out w) \<noteq> None \<and> Resp (out w) = JanetResponse_zero)"
| "pc_ok WSendResp w = (engaged w \<and> Err (out w) = None)"

definition worker_ok :: "worker \<Rightarrow> bool" where
  "worker_ok w = pc_ok (pc w) w"

text \<open>The number of worker goroutines that have not returned.\<close>

fun live :: "worker list \<Rightarrow> int" where
  "live [] = 0"
| "live (w # ws) = (if pc w = WExited then 0 else 1) + live ws"

definition workers_ok :: "WorkerPool \<Rightarrow> bool" where
  "workers_ok s = (\<forall>w \<in> set (workers s). worker_ok w)"

definition wg_ok :: "WorkerPool \<Rightarrow> bool" where
  "wg_ok s = (wg s = live (workers s))"

definition close_ok :: "WorkerPool \<Rightarrow> bool" where
  "close_ok s = ((0 < closing s \<or> 0 < closed s \<longrightarrow> ctx_done s)
                 \<and> (0 < closed s \<longrightarrow> wg s = 0))"

text \<open>The events that are steps of one worker alone.\<close>

fun local_event :: "event \<Rightarrow> nat option" where
  "local_event (Spawn i x) = Some i"
| "local_event (Encode i x) = Some i"
| "local_event (Decode i x) = Some i"
| "local_event (GuardFires i) = Some i"
| "local_event (StopGuard i) = Some i"
| "local_event (CmdWait i) = Some i"
| "local_event (BackoffOver i) = Some i"
| "local_event _ = None"

text \<open>
  The ways a step changes the state of call \<open>k\<close>: the two returns of the first select,
  the second return of \<open>ErrWorkerPoolClosed\<close>, the handoff, and the receipt of a reply.
\<close>

definition call_change :: "event \<Rightarrow> WorkerPool \<Rightarrow> nat \<Rightarrow> call_state \<Rightarrow> bool" where
  "call_change e s k x =
     ((e = DispatchTimeout k \<and> st (calls s ! k) = Handoff \<and> deadline (calls s ! k) \<le> now s
         \<and> x = Returned JanetResponse_zero (Some ErrWorkerPoolBusy))
      \<or> (e = DispatchClosed k \<and> ctx_done s
         \<and> (st (calls s ! k) = Handoff \<or> st (calls s ! k) = Waiting)
         \<and> x = Returned JanetResponse_zero (Some ErrWorkerPoolClosed))
      \<or> (\<exists>i. e = Accept k i \<and> st (calls s ! k) = Handoff
         \<and> i < length (workers s) \<and> pc (workers s ! i) = WReady \<and> x = Waiting)
      \<or> (\<exists>i q. e = Reply i \<and> i < length (workers s) \<and> sending (pc (workers s ! i))
         \<and> workReq (workers s ! i) = Some q \<and> RespChan q = k
         \<and> st (calls s ! k) = Waiting \<and> x = dispatch_result (out (workers s ! i))))"

text \<open>The ways a step changes worker \<open>i\<close>.\<close>

definition worker_change :: "event \<Rightarrow> WorkerPool \<Rightarrow> nat \<Rightarrow> worker \<Rightarrow> bool" where
  "worker_change e s i w' =
     ((local_event e = Some i \<and> worker_step (cfg s) (now s) e (workers s ! i) = Some w')
      \<or> (\<exists>k. e = Accept k i \<and> k < length (calls s) \<and> st (calls s ! k) = Handoff
            \<and> pc (workers s ! i) = WReady
            \<and> w' = (workers s ! i)
                \<lparr>workReq := Some \<lparr>Req = req (calls s ! k), RespChan = k\<rparr>,
                 timer := Armed (now s + WorkerRequestTimeout (cfg s)),
                 pc := WEncode\<rparr>)
      \<or> (\<exists>q. e = Reply i \<and> sending (pc (workers s ! i))
            \<and> workReq (workers s ! i) = Some q \<and> RespChan q < length (calls s)
            \<and> st (calls s ! RespChan q) = Waiting \<and> w' = after_send (workers s ! i))
      \<or> (e = WorkerDone i \<and> ctx_done s
            \<and> ((pc (workers s ! i) = WReady \<or> sending (pc (workers s ! i)))
                  \<and> w' = leave_inner (workers s ! i)
                \<or> pc (workers s ! i) = WBackoff \<and> w' = (workers s ! i)\<lparr>pc := WExited\<rparr>)))"

text \<open>
  What holds of a call that has returned, at time \<open>t\<close> with cancellation flag \<open>d\<close> and
  handoff deadline \<open>dl\<close>; and what holds of a call that waits while the pool is open:
  some worker serves it.
\<close>

fun result_ok :: "int \<Rightarrow> bool \<Rightarrow> int \<Rightarrow> call_state \<Rightarrow> bool" where
  "result_ok t d dl (Returned r x) =
     ((x \<noteq> None \<longrightarrow> r = JanetResponse_zero)
      \<and> (x = Some ErrWorkerPoolBusy \<longrightarrow> dl \<le> t)
      \<and> (x = Some ErrWorkerPoolClosed \<longrightarrow> d))"
| "result_ok t d dl _ = True"

definition calls_ok :: "WorkerPool \<Rightarrow> bool" where
  "calls_ok s =
     (\<forall>k < length (calls s).
        result_ok (now s) (ctx_done s) (deadline (calls s ! k)) (st (calls s ! k)))"

definition served :: "WorkerPool \<Rightarrow> bool" where
  "served s =
     (\<not> ctx_done s \<longrightarrow>
       (\<forall>k < length (calls s). st (calls s ! k) = Waiting \<longrightarrow>
          (\<exists>i < length (workers s). busy (pc (workers s ! i))
             \<and> (\<exists>q. workReq (workers s ! i) = Some q \<and> RespChan q = k))))"

definition exited_done :: "WorkerPool \<Rightarrow> bool" where
  "exited_done s = (\<forall>i < length (workers s). pc (workers s ! i) = WExited \<longrightarrow> ctx_done s)"

definition pool_ok :: "WorkerPool \<Rightarrow> bool" where
  "pool_ok s = (workers_ok s \<and> wg_ok s \<and> close_ok s \<and> calls_ok s \<and> served s \<and> exited_done s)"

text \<open>
  A call that has not been served: still in its first select, or returned with one of
  the two errors of that select.
\<close>

definition refused :: "call_state \<Rightarrow> bool" where
  "refused x = (x = Handoff \<or> x = Returned JanetResponse_zero (Some ErrWorkerPoolBusy)
                \<or> x = Returned JanetResponse_zero (Some ErrWorkerPoolClosed))"

text \<open>Call \<open>k\<close> is not served and some call of Close has returned.\<close>

definition drained :: "nat \<Rightarrow> WorkerPool \<Rightarrow> bool" where
  "drained k s = (k < length (calls s) \<and> refused (st (calls s ! k))
                  \<and> (\<forall>i < length (workers s). pc (workers s ! i) \<noteq> WReady)
                  \<and> 0 < closed s \<and> pool_ok s)"

text \<open>A pool without workers, none of whose calls has been served.\<close>

definition idle :: "WorkerPool \<Rightarrow> bool" where
  "idle s = (workers s = [] \<and> (\<forall>k < length (calls s). refused (st (calls s ! k))))"

text \<open>
  The control points of a worker from a protocol error until it serves again: the two
  error selects, the wait for the child, the backoff, the top of the loop, the exit.
\<close>

definition discarded :: "wpc \<Rightarrow> bool" where
  "discarded x = (x = WEncodeErr \<or> x = WDecodeErr \<or> x = WWait \<or> x = WBackoff
                  \<or> x = WSpawn \<or> x = WExited)"



section \<open>Example inputs\<close>

text \<open>
  The configuration of the scenario: two workers, the command \<open>echo-server\<close>, a
  request timeout of one second, no logger given.
\<close>

definition cfg_echo :: PoolConfig where
  "cfg_echo = \<lparr>Logger = None, NumWorkers = 2, WorkerProc = [''echo-server''],
               WorkerRequestTimeout = 1000000000\<rparr>"

definition req_a :: JanetRequest where
  "req_a = \<lparr>RequestID = ''a'', Headers = [], Body = ''hello''\<rparr>"

definition resp_a :: JanetResponse where
  "resp_a = \<lparr>Status = 200, RespHeaders = [], RespBody = ''hello''\<rparr>"

text \<open>The same with one worker.\<close>

definition cfg_one :: PoolConfig where
  "cfg_one = cfg_echo\<lparr>NumWorkers := 1\<rparr>"

text \<open>The configuration with no worker.\<close>

definition cfg_none :: PoolConfig where
  "cfg_none = cfg_echo\<lparr>NumWorkers := 0\<rparr>"

text \<open>The state of call \<open>k\<close> and worker \<open>i\<close> of a pool.\<close>

definition call_st :: "nat \<Rightarrow> WorkerPool \<Rightarrow> call_state" where
  "call_st k s = st (calls s ! k)"

definition worker_at :: "nat \<Rightarrow> WorkerPool \<Rightarrow> worker" where
  "worker_at i s = workers s ! i"

text \<open>
  A run in which the only worker starts its child, Close is called, the worker leaves
  its select, collects the child and exits, and Close returns.
\<close>

definition close_trace :: "event list" where
  "close_trace = [Spawn 0 Started, CloseCall, WorkerDone 0, CmdWait 0, WorkerDone 0, CloseReturn]"

text \<open>A call of Dispatch with timeout 0 made after Close has returned.\<close>

definition after_close_trace :: "event list" where
  "after_close_trace = close_trace @ [Call req_a 0]"


text \<open>
  One exchange in which the timeout guard fires before the response is decoded, and one
  in which the response comes in time.
\<close>

definition late_trace :: "event list" where
  "late_trace = [Spawn 0 Started, Call req_a 5, Accept 0 0, Encode 0 None, Tick 1000000000,
     GuardFires 0, Decode 0 (Inr resp_a), Reply 0]"

definition timely_trace :: "event list" where
  "timely_trace = [Spawn 0 Started, Call req_a 5, Accept 0 0, Encode 0 None,
     Decode 0 (Inr resp_a), Reply 0]"

text \<open>
  Close is called while the only worker is inside \<open>encoder.Encode\<close>, and while it is in
  its first select.
\<close>

definition encode_cancel_trace :: "event list" where
  "encode_cancel_trace = [Spawn 0 Started, Call req_a 5, Accept 0 0, CloseCall]"

definition ready_cancel_trace :: "event list" where
  "ready_cancel_trace = [Spawn 0 Started, CloseCall]"

text \<open>
  An encode failure, after which Close is called and the worker takes the cancellation
  case of its error select; the same failure up to the error select; and the events by
  which a worker that waits for its child comes to serve again.
\<close>

definition error_cancel_trace :: "event list" where
  "error_cancel_trace = [Spawn 0 Started, Call req_a 5, Accept 0 0,
     Encode 0 (Some (IOError ''broken pipe'')), CloseCall, WorkerDone 0, CmdWait 0,
     WorkerDone 0]"

definition error_trace :: "event list" where
  "error_trace = [Spawn 0 Started, Call req_a 5, Accept 0 0,
     Encode 0 (Some (IOError ''broken pipe''))]"

definition respawn_trace :: "nat \<Rightarrow> event list" where
  "respawn_trace i = [CmdWait i, Tick 200000000, BackoffOver i, Spawn i Started]"

section \<open>Construction\<close>

lemma spawn_loop_fields:
  "cfg (spawn_loop i n p) = cfg p \<and> ctx_done (spawn_loop i n p) = ctx_done p
   \<and> calls (spawn_loop i n p) = calls p \<and> closing (spawn_loop i n p) = closing p
   \<and> closed (spawn_loop i n p) = closed p \<and> now (spawn_loop i n p) = now p"
proof (induction i n p rule: spawn_loop.induct)
  case (1 i n p)
  show ?case
  proof (cases "i < n")
    case True
    with "1" show ?thesis
      by (simp add: spawn_loop.simps [of i n p] spawnWorker_def)
  next
    case False
    then show ?thesis by (simp add: spawn_loop.simps [of i n p])
  qed
qed

lemma spawn_loop_workers:
  "workers (spawn_loop i n p) = workers p @ replicate (nat (n - i)) worker_init"
proof (induction i n p rule: spawn_loop.induct)
  case (1 i n p)
  show ?case
  proof (cases "i < n")
    case True
    then have "nat (n - i) = Suc (nat (n - (i + 1)))" by simp
    with True "1" show ?thesis
      by (simp add: spawn_loop.simps [of i n p] spawnWorker_def replicate_append_same)
  next
    case False
    then show ?thesis by (simp add: spawn_loop.simps [of i n p])
  qed
qed

lemma spawn_loop_wg: "wg (spawn_loop i n p) = wg p + int (nat (n - i))"
proof (induction i n p rule: spawn_loop.induct)
  case (1 i n p)
  show ?case
  proof (cases "i < n")
    case True
    with "1" show ?thesis
      by (simp add: spawn_loop.simps [of i n p] spawnWorker_def)
  next
    case False
    then show ?thesis by (simp add: spawn_loop.simps [of i n p])
  qed
qed

lemma NewWorkerPool_Inr:
  assumes "NewWorkerPool c = Inr p"
  shows "0 \<le> NumWorkers c \<and> WorkerProc c \<noteq> []
    \<and> workers p = replicate (nat (NumWorkers c)) worker_init \<and> wg p = NumWorkers c
    \<and> \<not> ctx_done p \<and> calls p = [] \<and> closing p = 0 \<and> closed p = 0 \<and> now p = 0
    \<and> cfg p = (if Logger c = None then c\<lparr>Logger := Some Log15New\<rparr> else c)"
  using assms
  by (auto simp: NewWorkerPool_def Let_def spawn_loop_fields spawn_loop_workers spawn_loop_wg
      split: if_splits)

lemma NewWorkerPool_succeeds:
  "0 \<le> NumWorkers c \<Longrightarrow> WorkerProc c \<noteq> [] \<Longrightarrow> \<exists>p. NewWorkerPool c = Inr p"
  by (simp add: NewWorkerPool_def Let_def)

text \<open>
  Claim C2. NewWorkerPool returns a pool exactly when \<open>NumWorkers\<close> is not negative and
  \<open>WorkerProc\<close> is not empty. Otherwise it returns the error of the check that failed,
  and with it no pool: the result is produced at line 66 or 69, before the context, the
  pool and any worker goroutine exist, so nothing of such a pool ever takes a step. A
  pool that is returned has \<open>NumWorkers\<close> worker
  goroutines, each at the top of its loop, and a WaitGroup counter of \<open>NumWorkers\<close>.
\<close>

theorem NewWorkerPool_validates:
  "((\<exists>p. NewWorkerPool c = Inr p) \<longleftrightarrow> 0 \<le> NumWorkers c \<and> WorkerProc c \<noteq> [])
   \<and> (NumWorkers c < 0 \<longrightarrow>
        NewWorkerPool c = Inl (ErrorsNew ''pool needs at least one worker''))
   \<and> (0 \<le> NumWorkers c \<and> WorkerProc c = [] \<longrightarrow>
        NewWorkerPool c = Inl (ErrorsNew ''pool worker proc must not be empty''))
   \<and> (NumWorkers c < 0 \<or> WorkerProc c = [] \<longrightarrow> (\<forall>es. pool_run c es = None))
   \<and> (\<forall>p. NewWorkerPool c = Inr p \<longrightarrow>
        workers p = replicate (nat (NumWorkers c)) worker_init \<and> wg p = NumWorkers c)"
proof -
  have a: "(\<exists>p. NewWorkerPool c = Inr p) \<longleftrightarrow> 0 \<le> NumWorkers c \<and> WorkerProc c \<noteq> []"
    by (auto simp: NewWorkerPool_def Let_def)
  have n: "NumWorkers c < 0 \<or> WorkerProc c = [] \<longrightarrow> (\<forall>es. pool_run c es = None)"
    by (auto simp: pool_run_def NewWorkerPool_def Let_def)
  have b: "NumWorkers c < 0 \<longrightarrow>
        NewWorkerPool c = Inl (ErrorsNew ''pool needs at least one worker'')"
    by (simp add: NewWorkerPool_def Let_def)
  have d: "0 \<le> NumWorkers c \<and> WorkerProc c = [] \<longrightarrow>
        NewWorkerPool c = Inl (ErrorsNew ''pool worker proc must not be empty'')"
    by (simp add: NewWorkerPool_def Let_def)
  have e: "\<forall>p. NewWorkerPool c = Inr p \<longrightarrow>
        workers p = replicate (nat (NumWorkers c)) worker_init \<and> wg p = NumWorkers c"
    using NewWorkerPool_Inr by blast
  from a b d e n show ?thesis by blast
qed

theorem NewWorkerPool_validates_witness:
  "0 \<le> NumWorkers cfg_echo \<and> WorkerProc cfg_echo \<noteq> []
   \<and> map_sum id workers (NewWorkerPool cfg_echo) = Inr [worker_init, worker_init]
   \<and> map_sum id wg (NewWorkerPool cfg_echo) = Inr 2
   \<and> NumWorkers (cfg_echo\<lparr>NumWorkers := - 1\<rparr>) < 0
   \<and> NewWorkerPool (cfg_echo\<lparr>NumWorkers := - 1\<rparr>)
       = Inl (ErrorsNew ''pool needs at least one worker'')
   \<and> pool_run (cfg_echo\<lparr>NumWorkers := - 1\<rparr>) [Spawn 0 Started] = None
   \<and> WorkerProc (cfg_echo\<lparr>WorkerProc := []\<rparr>) = []
   \<and> NewWorkerPool (cfg_echo\<lparr>WorkerProc := []\<rparr>)
       = Inl (ErrorsNew ''pool worker proc must not be empty'')"
proof -
  have ok: "0 \<le> NumWorkers cfg_echo \<and> WorkerProc cfg_echo \<noteq> []"
    by (simp add: cfg_echo_def)
  with NewWorkerPool_validates [of cfg_echo]
  obtain p where p: "NewWorkerPool cfg_echo = Inr p" by blast
  with NewWorkerPool_validates [of cfg_echo]
  have "workers p = replicate (nat (NumWorkers cfg_echo)) worker_init"
    and "wg p = NumWorkers cfg_echo" by blast+
  then have w: "workers p = [worker_init, worker_init]" "wg p = 2"
    by (simp_all add: cfg_echo_def numeral_2_eq_2)
  have neg: "NumWorkers (cfg_echo\<lparr>NumWorkers := - 1\<rparr>) < 0" by simp
  have emp: "0 \<le> NumWorkers (cfg_echo\<lparr>WorkerProc := []\<rparr>)
             \<and> WorkerProc (cfg_echo\<lparr>WorkerProc := []\<rparr>) = []"
    by (simp add: cfg_echo_def)
  from ok p w neg emp
    NewWorkerPool_validates [of "cfg_echo\<lparr>NumWorkers := - 1\<rparr>"]
    NewWorkerPool_validates [of "cfg_echo\<lparr>WorkerProc := []\<rparr>"]
  show ?thesis by simp
qed

text \<open>
  Claim C10. A configuration whose \<open>Logger\<close> is nil is treated as the same configuration
  with the logger \<open>log15.New()\<close> creates: the two give the same result, so a nil logger
  never makes NewWorkerPool fail (it succeeds exactly when the two checks of C2 pass),
  and the pool that is returned holds the new logger.
\<close>

theorem nil_logger_replaced:
  "NewWorkerPool (c\<lparr>Logger := None\<rparr>) = NewWorkerPool (c\<lparr>Logger := Some Log15New\<rparr>)
   \<and> ((\<exists>p. NewWorkerPool (c\<lparr>Logger := None\<rparr>) = Inr p)
        \<longleftrightarrow> 0 \<le> NumWorkers c \<and> WorkerProc c \<noteq> [])
   \<and> (\<forall>p. NewWorkerPool (c\<lparr>Logger := None\<rparr>) = Inr p \<longrightarrow>
         Logger (cfg p) = Some Log15New)"
proof -
  have a: "NewWorkerPool (c\<lparr>Logger := None\<rparr>) = NewWorkerPool (c\<lparr>Logger := Some Log15New\<rparr>)"
    by (simp add: NewWorkerPool_def Let_def)
  have b: "(\<exists>p. NewWorkerPool (c\<lparr>Logger := None\<rparr>) = Inr p)
        \<longleftrightarrow> 0 \<le> NumWorkers c \<and> WorkerProc c \<noteq> []"
    by (auto simp: NewWorkerPool_def Let_def)
  have d: "\<forall>p. NewWorkerPool (c\<lparr>Logger := None\<rparr>) = Inr p \<longrightarrow>
         Logger (cfg p) = Some Log15New"
    using NewWorkerPool_Inr [of "c\<lparr>Logger := None\<rparr>"] by auto
  from a b d show ?thesis by blast
qed

theorem nil_logger_replaced_witness:
  "Logger cfg_echo = None
   \<and> map_sum id (\<lambda>p. Logger (cfg p)) (NewWorkerPool cfg_echo) = Inr (Some Log15New)"
proof -
  have n: "cfg_echo\<lparr>Logger := None\<rparr> = cfg_echo" by (simp add: cfg_echo_def)
  have ok: "0 \<le> NumWorkers cfg_echo \<and> WorkerProc cfg_echo \<noteq> []"
    by (simp add: cfg_echo_def)
  from nil_logger_replaced [of cfg_echo]
  have a: "(\<exists>p. NewWorkerPool cfg_echo = Inr p)
             \<longleftrightarrow> 0 \<le> NumWorkers cfg_echo \<and> WorkerProc cfg_echo \<noteq> []"
    and b: "\<forall>p. NewWorkerPool cfg_echo = Inr p \<longrightarrow> Logger (cfg p) = Some Log15New"
    unfolding n by blast+
  from a ok obtain p where p: "NewWorkerPool cfg_echo = Inr p" by blast
  with b have "Logger (cfg p) = Some Log15New" by blast
  with p show ?thesis by (simp add: cfg_echo_def)
qed

section \<open>The invariants hold in every run\<close>

lemma worker_init_ok: "worker_ok worker_init"
  by (simp add: worker_ok_def worker_init_def released_def)

lemma leave_inner_ok: "worker_ok (leave_inner w)"
  by (simp add: worker_ok_def leave_inner_def released_def)

lemma worker_spawn_ok: "released w \<Longrightarrow> worker_ok (worker_spawn x w)"
  by (cases x) (simp_all add: worker_ok_def leave_inner_def released_def attached_def)

lemma worker_step_ok:
  assumes "worker_ok w" and "worker_step c t e w = Some w'"
  shows "worker_ok w'"
proof (cases e)
  case (Spawn i x)
  with assms have "released w" and "w' = worker_spawn x w"
    by (auto simp: worker_ok_def split: if_splits)
  then show ?thesis by (simp add: worker_spawn_ok)
next
  case (Encode i x)
  with assms show ?thesis
    by (cases x) (auto simp: worker_ok_def engaged_def attached_def split: if_splits)
next
  case (Decode i x)
  with assms show ?thesis
    by (cases x) (auto simp: worker_ok_def engaged_def attached_def split: if_splits)
next
  case (GuardFires i)
  with assms obtain d where d: "timer w = Armed d" "w' = w\<lparr>p2 := False, p3 := False, timer := Fired\<rparr>"
    by (auto split: if_splits timer_state.splits)
  from assms(1) show ?thesis unfolding worker_ok_def d
    by (cases "pc w") (simp_all add: engaged_def attached_def released_def)
next
  case (StopGuard i)
  with assms show ?thesis
    by (auto simp: leave_inner_ok split: if_splits timer_state.splits)
       (simp_all add: worker_ok_def engaged_def attached_def)
next
  case (CmdWait i)
  with assms show ?thesis
    by (auto simp: worker_ok_def released_def split: if_splits)
next
  case (BackoffOver i)
  with assms show ?thesis
    by (auto simp: worker_ok_def released_def split: if_splits)
qed (use assms in simp_all)

lemma live_update:
  "i < length ws \<Longrightarrow>
     live (ws[i := w]) =
       live ws - (if pc (ws ! i) = WExited then 0 else 1) + (if pc w = WExited then 0 else 1)"
proof (induction ws arbitrary: i)
  case Nil
  then show ?case by simp
next
  case (Cons a ws)
  then show ?case by (cases i) simp_all
qed

lemma live_nonneg: "0 \<le> live ws"
  by (induction ws) simp_all

lemma live_zero: "live ws = 0 \<longleftrightarrow> (\<forall>w \<in> set ws. pc w = WExited)"
proof (induction ws)
  case Nil
  then show ?case by simp
next
  case (Cons a ws)
  then show ?case using live_nonneg [of ws] by auto
qed

lemma live_replicate: "live (replicate n worker_init) = int n"
  by (induction n) (simp_all add: worker_init_def)

lemma workers_ok_update:
  assumes "workers_ok s" and "worker_ok x" and "workers s' = (workers s)[i := x]"
  shows "workers_ok s'"
  using assms set_update_subset_insert [of "workers s" i x]
  by (auto simp: workers_ok_def)

lemma workers_ok_nth: "workers_ok s \<Longrightarrow> i < length (workers s) \<Longrightarrow> worker_ok (workers s ! i)"
  by (simp add: workers_ok_def)

lemma worker_step_pc:
  assumes "worker_step c t e w = Some w'"
  shows "(pc w' = WExited) = (pc w = WExited)"
proof (cases e)
  case (Spawn i x)
  with assms show ?thesis by (cases x) (auto simp: leave_inner_def split: if_splits)
next
  case (Encode i x)
  with assms show ?thesis by (cases x) (auto split: if_splits)
next
  case (Decode i x)
  with assms show ?thesis by (cases x) (auto split: if_splits)
next
  case (StopGuard i)
  with assms show ?thesis
    by (auto simp: leave_inner_def split: if_splits timer_state.splits)
qed (use assms in \<open>auto split: if_splits timer_state.splits\<close>)

lemma set_worker_simps [simp]:
  "workers (set_worker i w s) = (workers s)[i := w]"
  "calls (set_worker i w s) = calls s"
  "cfg (set_worker i w s) = cfg s"
  "ctx_done (set_worker i w s) = ctx_done s"
  "wg (set_worker i w s) = wg s"
  "closing (set_worker i w s) = closing s"
  "closed (set_worker i w s) = closed s"
  "now (set_worker i w s) = now s"
  by (simp_all add: set_worker_def)

lemma set_call_simps [simp]:
  "workers (set_call c x s) = workers s"
  "calls (set_call c x s) = (calls s)[c := (calls s ! c)\<lparr>st := x\<rparr>]"
  "cfg (set_call c x s) = cfg s"
  "ctx_done (set_call c x s) = ctx_done s"
  "wg (set_call c x s) = wg s"
  "closing (set_call c x s) = closing s"
  "closed (set_call c x s) = closed s"
  "now (set_call c x s) = now s"
  by (simp_all add: set_call_def)

lemma local_stepE:
  assumes "local_step i e s = Some s'"
  obtains w' where "i < length (workers s)"
    and "worker_step (cfg s) (now s) e (workers s ! i) = Some w'"
    and "s' = set_worker i w' s"
  using assms by (auto simp: local_step_def split: if_splits option.splits)

lemma step_local: "local_event e = Some i \<Longrightarrow> step e s = local_step i e s"
  by (cases e) simp_all

lemma workers_ok_local:
  assumes "workers_ok s" and "local_step i e s = Some s'"
  shows "workers_ok s'"
proof -
  from assms(2) obtain w' where w: "i < length (workers s)"
    "worker_step (cfg s) (now s) e (workers s ! i) = Some w'" "s' = set_worker i w' s"
    by (rule local_stepE)
  from assms(1) w(1) have "worker_ok (workers s ! i)" by (rule workers_ok_nth)
  then have "worker_ok w'" using w(2) by (rule worker_step_ok)
  with assms(1) show ?thesis by (rule workers_ok_update) (simp add: w(3))
qed

lemma step_workers_ok:
  assumes "workers_ok s" and "step e s = Some s'"
  shows "workers_ok s'"
proof (cases "local_event e")
  case (Some i)
  with assms show ?thesis by (simp add: step_local workers_ok_local)
next
  case None
  show ?thesis
  proof (cases e)
    case (Accept c i)
    with assms(2) have a: "i < length (workers s)" "pc (workers s ! i) = WReady"
      "workers s' = (workers s)[i := (workers s ! i)
                \<lparr>workReq := Some \<lparr>Req = req (calls s ! c), RespChan = c\<rparr>,
                 timer := Armed (now s + WorkerRequestTimeout (cfg s)),
                 pc := WEncode\<rparr>]"
      by (auto split: if_splits)
    from assms(1) a(1) have "worker_ok (workers s ! i)" by (rule workers_ok_nth)
    with a(2) have "worker_ok ((workers s ! i)
                \<lparr>workReq := Some \<lparr>Req = req (calls s ! c), RespChan = c\<rparr>,
                 timer := Armed (now s + WorkerRequestTimeout (cfg s)),
                 pc := WEncode\<rparr>)"
      by (simp add: worker_ok_def engaged_def attached_def)
    with assms(1) show ?thesis using a(3) by (rule workers_ok_update)
  next
    case (Reply i)
    with assms(2) have a: "i < length (workers s)" "sending (pc (workers s ! i))"
      "workers s' = (workers s)[i := after_send (workers s ! i)]"
      by (auto split: if_splits option.splits)
    from assms(1) a(1) have "worker_ok (workers s ! i)" by (rule workers_ok_nth)
    then have "worker_ok (after_send (workers s ! i))"
    proof (cases "pc (workers s ! i) = WSendResp")
      case True
      with \<open>worker_ok (workers s ! i)\<close> show ?thesis
        by (simp add: after_send_def worker_ok_def engaged_def attached_def)
    next
      case False
      then show ?thesis by (simp add: after_send_def leave_inner_ok)
    qed
    with assms(1) show ?thesis using a(3) by (rule workers_ok_update)
  next
    case (WorkerDone i)
    with assms(2) have a: "i < length (workers s)"
      "workers s' = (workers s)[i := leave_inner (workers s ! i)]
       \<or> pc (workers s ! i) = WBackoff
         \<and> workers s' = (workers s)[i := (workers s ! i)\<lparr>pc := WExited\<rparr>]"
      by (auto split: if_splits)
    from assms(1) a(1) have ok: "worker_ok (workers s ! i)" by (rule workers_ok_nth)
    from a(2) show ?thesis
    proof
      assume "workers s' = (workers s)[i := leave_inner (workers s ! i)]"
      with assms(1) leave_inner_ok show ?thesis by (rule workers_ok_update)
    next
      assume b: "pc (workers s ! i) = WBackoff
         \<and> workers s' = (workers s)[i := (workers s ! i)\<lparr>pc := WExited\<rparr>]"
      with ok have "worker_ok ((workers s ! i)\<lparr>pc := WExited\<rparr>)"
        by (simp add: worker_ok_def released_def)
      moreover from b have "workers s' = (workers s)[i := (workers s ! i)\<lparr>pc := WExited\<rparr>]"
        by simp
      ultimately show ?thesis using assms(1) workers_ok_update by blast
    qed
  qed (use assms None in \<open>auto simp: workers_ok_def split: if_splits\<close>)
qed

lemma live_same:
  assumes "i < length ws" and "(pc w = WExited) = (pc (ws ! i) = WExited)"
  shows "live (ws[i := w]) = live ws"
  using assms by (simp add: live_update)

lemma wg_ok_local:
  assumes "wg_ok s" and "local_step i e s = Some s'"
  shows "wg_ok s'"
proof -
  from assms(2) obtain w' where w: "i < length (workers s)"
    "worker_step (cfg s) (now s) e (workers s ! i) = Some w'" "s' = set_worker i w' s"
    by (rule local_stepE)
  from w(2) have "(pc w' = WExited) = (pc (workers s ! i) = WExited)"
    by (rule worker_step_pc)
  with w(1) have "live ((workers s)[i := w']) = live (workers s)" by (rule live_same)
  with assms(1) show ?thesis by (simp add: wg_ok_def w(3))
qed

lemma step_wg_ok:
  assumes "wg_ok s" and "step e s = Some s'"
  shows "wg_ok s'"
proof (cases "local_event e")
  case (Some i)
  with assms show ?thesis by (simp add: step_local wg_ok_local)
next
  case None
  show ?thesis
  proof (cases e)
    case (Accept c i)
    with assms show ?thesis
      by (auto simp: wg_ok_def live_same split: if_splits)
  next
    case (Reply i)
    with assms show ?thesis
      by (auto simp: wg_ok_def live_same sending_def after_send_def leave_inner_def
          split: if_splits option.splits)
  next
    case (WorkerDone i)
    with assms show ?thesis
      by (auto simp: wg_ok_def live_update sending_def leave_inner_def split: if_splits)
  qed (use assms None in \<open>auto simp: wg_ok_def split: if_splits\<close>)
qed

lemma step_ctx_done: "step e s = Some s' \<Longrightarrow> ctx_done s \<Longrightarrow> ctx_done s'"
  by (cases e) (auto simp: local_step_def split: if_splits option.splits)

lemma step_closed_mono: "step e s = Some s' \<Longrightarrow> closed s \<le> closed s'"
  by (cases e) (auto simp: local_step_def split: if_splits option.splits)

lemma step_now_mono: "step e s = Some s' \<Longrightarrow> now s \<le> now s'"
  by (cases e) (auto simp: local_step_def split: if_splits option.splits)

lemma step_cfg: "step e s = Some s' \<Longrightarrow> cfg s' = cfg s"
  by (cases e) (auto simp: local_step_def split: if_splits option.splits)

lemma step_length_workers: "step e s = Some s' \<Longrightarrow> length (workers s') = length (workers s)"
  by (cases e) (auto simp: local_step_def split: if_splits option.splits)

lemma step_length_calls: "step e s = Some s' \<Longrightarrow> length (calls s) \<le> length (calls s')"
  by (cases e) (auto simp: local_step_def split: if_splits option.splits)

lemma wg_zero_exited:
  assumes "wg_ok s" and "wg s = 0" and "i < length (workers s)"
  shows "pc (workers s ! i) = WExited"
  using assms live_zero [of "workers s"] by (simp add: wg_ok_def)

lemma step_close_ok:
  assumes "wg_ok s" and "close_ok s" and "step e s = Some s'"
  shows "close_ok s'"
proof (cases "local_event e")
  case (Some i)
  with assms(3) have "local_step i e s = Some s'" by (simp add: step_local)
  then obtain w' where "s' = set_worker i w' s" by (rule local_stepE)
  with assms(2) show ?thesis by (simp add: close_ok_def)
next
  case None
  show ?thesis
  proof (cases e)
    case (WorkerDone i)
    show ?thesis
    proof (cases "pc (workers s ! i) = WBackoff")
      case True
      with WorkerDone assms(3) have i: "i < length (workers s)" "ctx_done s'"
        "closing s' = closing s" "closed s' = closed s"
        by (auto simp: sending_def split: if_splits)
      have "closed s = 0"
      proof (rule ccontr)
        assume "closed s \<noteq> 0"
        with assms(2) have "wg s = 0" by (simp add: close_ok_def)
        with assms(1) i(1) have "pc (workers s ! i) = WExited" by (simp add: wg_zero_exited)
        with True show False by simp
      qed
      with i show ?thesis by (simp add: close_ok_def)
    next
      case False
      with WorkerDone assms(2,3) show ?thesis
        by (auto simp: close_ok_def split: if_splits)
    qed
  qed (use assms None in \<open>auto simp: close_ok_def split: if_splits option.splits\<close>)
qed

lemma step_call:
  assumes "step e s = Some s'" and "k < length (calls s)"
  shows "calls s' ! k = calls s ! k
         \<or> (\<exists>x. calls s' ! k = (calls s ! k)\<lparr>st := x\<rparr> \<and> call_change e s k x)"
proof (cases "local_event e")
  case (Some i)
  with assms(1) have "local_step i e s = Some s'" by (simp add: step_local)
  then obtain w' where "s' = set_worker i w' s" by (rule local_stepE)
  then show ?thesis by simp
next
  case None
  show ?thesis
  proof (cases e)
    case (Tick d)
    with assms show ?thesis by (auto split: if_splits)
  next
    case (Call r t)
    with assms show ?thesis by (auto simp: nth_append)
  next
    case (DispatchTimeout c)
    with assms show ?thesis
      by (cases "c = k") (auto simp: call_change_def split: if_splits)
  next
    case (DispatchClosed c)
    with assms show ?thesis
      by (cases "c = k") (auto simp: call_change_def split: if_splits)
  next
    case (Accept c i)
    with assms show ?thesis
      by (cases "c = k") (auto simp: call_change_def split: if_splits)
  next
    case (Reply i)
    show ?thesis
    proof (cases "workReq (workers s ! i)")
      case None
      with Reply assms show ?thesis by (auto split: if_splits)
    next
      case (Some q)
      with Reply assms show ?thesis
        by (cases "RespChan q = k") (auto simp: call_change_def split: if_splits)
    qed
  next
    case (WorkerDone i)
    with assms show ?thesis by (auto split: if_splits)
  next
    case CloseCall
    with assms show ?thesis by auto
  next
    case CloseReturn
    with assms show ?thesis by (auto split: if_splits)
  qed (use None in simp_all)
qed

lemma step_worker:
  assumes "step e s = Some s'" and "i < length (workers s)"
  shows "workers s' ! i = workers s ! i \<or> worker_change e s i (workers s' ! i)"
proof (cases "local_event e")
  case (Some j)
  with assms(1) have "local_step j e s = Some s'" by (simp add: step_local)
  then obtain w' where w: "j < length (workers s)"
    "worker_step (cfg s) (now s) e (workers s ! j) = Some w'" "s' = set_worker j w' s"
    by (rule local_stepE)
  with Some assms(2) show ?thesis
    by (cases "j = i") (simp_all add: worker_change_def)
next
  case None
  show ?thesis
  proof (cases e)
    case (Accept c j)
    with assms show ?thesis
      by (cases "j = i") (auto simp: worker_change_def split: if_splits)
  next
    case (Reply j)
    show ?thesis
    proof (cases "workReq (workers s ! j)")
      case None
      with Reply assms show ?thesis by (auto split: if_splits)
    next
      case (Some q)
      with Reply assms show ?thesis
        by (cases "j = i") (auto simp: worker_change_def split: if_splits)
    qed
  next
    case (WorkerDone j)
    with assms show ?thesis
      by (cases "j = i") (auto simp: worker_change_def split: if_splits)
  qed (use assms None in \<open>auto split: if_splits\<close>)
qed

lemma result_ok_mono:
  "result_ok t d dl x \<Longrightarrow> t \<le> t' \<Longrightarrow> (d \<longrightarrow> d') \<Longrightarrow> result_ok t' d' dl x"
  by (cases x) auto

lemma dispatch_result_cases:
  "(\<exists>e. Err r = Some e
        \<and> dispatch_result r = Returned JanetResponse_zero (Some (Errorf ''request failed'' e)))
   \<or> (Err r = None \<and> dispatch_result r = Returned (Resp r) None)"
  by (cases "Err r") (simp_all add: dispatch_result_def)

lemma dispatch_result_ok: "result_ok t d dl (dispatch_result r)"
  using dispatch_result_cases [of r] by auto

lemma dispatch_result_not_pending:
  "dispatch_result r \<noteq> Waiting" "dispatch_result r \<noteq> Handoff"
  using dispatch_result_cases [of r] by auto

lemma call_change_ok:
  "call_change e s k x \<Longrightarrow> result_ok (now s) (ctx_done s) (deadline (calls s ! k)) x"
  by (auto simp: call_change_def dispatch_result_ok)

lemma step_calls_ok:
  assumes "calls_ok s" and "step e s = Some s'"
  shows "calls_ok s'"
  unfolding calls_ok_def
proof (intro allI impI)
  fix k assume k: "k < length (calls s')"
  have mono: "now s \<le> now s'" "ctx_done s \<longrightarrow> ctx_done s'"
    using assms(2) step_now_mono step_ctx_done by blast+
  show "result_ok (now s') (ctx_done s') (deadline (calls s' ! k)) (st (calls s' ! k))"
  proof (cases "k < length (calls s)")
    case True
    with assms(1) have old: "result_ok (now s) (ctx_done s) (deadline (calls s ! k)) (st (calls s ! k))"
      by (simp add: calls_ok_def)
    from step_call [OF assms(2) True]
    have "result_ok (now s) (ctx_done s) (deadline (calls s' ! k)) (st (calls s' ! k))"
      using old call_change_ok by auto
    with mono show ?thesis using result_ok_mono by blast
  next
    case False
    with k assms(2) show ?thesis
      by (cases e) (auto simp: local_step_def nth_append split: if_splits option.splits)
  qed
qed

lemma worker_step_busy:
  assumes "worker_step c t e w = Some w'" and "busy (pc w)"
  shows "busy (pc w') \<and> workReq w' = workReq w"
proof (cases e)
  case (Encode i x)
  with assms show ?thesis by (cases x) (auto simp: busy_def sending_def split: if_splits)
next
  case (Decode i x)
  with assms show ?thesis by (cases x) (auto simp: busy_def sending_def split: if_splits)
qed (use assms in \<open>auto simp: busy_def sending_def split: if_splits timer_state.splits\<close>)

lemma Accept_result:
  assumes "step (Accept k i) s = Some s'"
  shows "i < length (workers s') \<and> pc (workers s' ! i) = WEncode
    \<and> workReq (workers s' ! i) = Some \<lparr>Req = req (calls s ! k), RespChan = k\<rparr>
    \<and> timer (workers s' ! i) = Armed (now s + WorkerRequestTimeout (cfg s))
    \<and> cmd (workers s' ! i) = cmd (workers s ! i)
    \<and> st (calls s' ! k) = Waiting"
  using assms by (auto split: if_splits)

lemma Reply_result:
  assumes "step (Reply i) s = Some s'"
  shows "\<exists>q. workReq (workers s ! i) = Some q \<and> RespChan q < length (calls s)
    \<and> i < length (workers s) \<and> sending (pc (workers s ! i))
    \<and> st (calls s ! RespChan q) = Waiting
    \<and> st (calls s' ! RespChan q) = dispatch_result (out (workers s ! i))
    \<and> workers s' ! i = after_send (workers s ! i)
    \<and> (\<forall>k. k \<noteq> RespChan q \<longrightarrow> calls s' ! k = calls s ! k)"
  using assms by (auto split: if_splits option.splits)

lemma step_calls_length:
  assumes "step e s = Some s'" and "k < length (calls s')" and "\<not> k < length (calls s)"
  shows "st (calls s' ! k) = Handoff"
  using assms
  by (cases e) (auto simp: local_step_def nth_append split: if_splits option.splits)

lemma step_served:
  assumes "served s" and "step e s = Some s'"
  shows "served s'"
  unfolding served_def
proof (intro allI impI)
  fix k
  assume nd: "\<not> ctx_done s'" and k: "k < length (calls s')" and w: "st (calls s' ! k) = Waiting"
  from nd assms(2) have nds: "\<not> ctx_done s" using step_ctx_done by blast
  have len: "length (workers s') = length (workers s)"
    using assms(2) by (rule step_length_workers)
  from step_calls_length [OF assms(2) k] w have ks: "k < length (calls s)" by auto
  from step_call [OF assms(2) ks]
  show "\<exists>i < length (workers s'). busy (pc (workers s' ! i))
             \<and> (\<exists>q. workReq (workers s' ! i) = Some q \<and> RespChan q = k)"
  proof
    assume same: "calls s' ! k = calls s ! k"
    with w assms(1) nds ks obtain i q where i: "i < length (workers s)"
      "busy (pc (workers s ! i))" "workReq (workers s ! i) = Some q" "RespChan q = k"
      by (auto simp: served_def)
    from step_worker [OF assms(2) i(1)]
    have "busy (pc (workers s' ! i)) \<and> workReq (workers s' ! i) = Some q"
    proof
      assume "workers s' ! i = workers s ! i"
      with i show ?thesis by simp
    next
      assume "worker_change e s i (workers s' ! i)"
      then consider
        (loc) "worker_step (cfg s) (now s) e (workers s ! i) = Some (workers s' ! i)"
        | (acc) "pc (workers s ! i) = WReady"
        | (rep) "e = Reply i"
        | (don) "ctx_done s"
        by (auto simp: worker_change_def)
      then show ?thesis
      proof cases
        case loc
        with i show ?thesis using worker_step_busy by fastforce
      next
        case acc
        with i(2) show ?thesis by (simp add: busy_def sending_def)
      next
        case rep
        with assms(2) i(3,4) have "st (calls s' ! k) = dispatch_result (out (workers s ! i))"
          using Reply_result [of i s s'] by auto
        with w show ?thesis by (simp add: dispatch_result_not_pending)
      next
        case don
        with nds show ?thesis by simp
      qed
    qed
    with i(1,4) len show ?thesis by auto
  next
    assume "\<exists>x. calls s' ! k = (calls s ! k)\<lparr>st := x\<rparr> \<and> call_change e s k x"
    with w have "call_change e s k Waiting" by auto
    then obtain i where "e = Accept k i"
      using dispatch_result_not_pending(1) [symmetric]
      by (auto simp: call_change_def)
    with assms(2) show ?thesis using Accept_result [of k i s s']
      by (auto simp: busy_def)
  qed
qed

lemma step_exited_done:
  assumes "exited_done s" and "step e s = Some s'"
  shows "exited_done s'"
  unfolding exited_done_def
proof (intro allI impI)
  fix i assume i: "i < length (workers s')" and x: "pc (workers s' ! i) = WExited"
  have len: "length (workers s') = length (workers s)"
    using assms(2) by (rule step_length_workers)
  with i have il: "i < length (workers s)" by simp
  have "ctx_done s"
    using step_worker [OF assms(2) il]
  proof
    assume "workers s' ! i = workers s ! i"
    with x assms(1) il show ?thesis by (simp add: exited_done_def)
  next
    assume "worker_change e s i (workers s' ! i)"
    then consider
      (loc) "worker_step (cfg s) (now s) e (workers s ! i) = Some (workers s' ! i)"
      | (acc) "pc (workers s' ! i) = WEncode"
      | (rep) "workers s' ! i = after_send (workers s ! i)"
      | (don) "ctx_done s"
      by (auto simp: worker_change_def)
    then show ?thesis
    proof cases
      case loc
      with x have "pc (workers s ! i) = WExited" using worker_step_pc by blast
      with assms(1) il show ?thesis by (simp add: exited_done_def)
    next
      case acc
      with x show ?thesis by simp
    next
      case rep
      with x show ?thesis by (simp add: after_send_def leave_inner_def split: if_splits)
    next
      case don
      then show ?thesis .
    qed
  qed
  with assms(2) show "ctx_done s'" using step_ctx_done by blast
qed

lemma step_pool_ok: "pool_ok s \<Longrightarrow> step e s = Some s' \<Longrightarrow> pool_ok s'"
  unfolding pool_ok_def
  using step_workers_ok step_wg_ok step_close_ok step_calls_ok step_served step_exited_done
  by blast

lemma run_pool_ok: "pool_ok s \<Longrightarrow> run es s = Some s' \<Longrightarrow> pool_ok s'"
proof (induction es arbitrary: s)
  case Nil
  then show ?case by simp
next
  case (Cons e es)
  from Cons.prems(2) obtain s1 where s1: "step e s = Some s1" "run es s1 = Some s'"
    by (auto split: option.splits)
  from Cons.prems(1) s1(1) have "pool_ok s1" by (rule step_pool_ok)
  then show ?case using s1(2) by (rule Cons.IH)
qed

lemma NewWorkerPool_ok:
  assumes "NewWorkerPool c = Inr p"
  shows "pool_ok p"
proof -
  note f = NewWorkerPool_Inr [OF assms]
  have "workers_ok p" using f by (simp add: workers_ok_def worker_init_ok)
  moreover have "wg_ok p" using f by (simp add: wg_ok_def live_replicate)
  moreover have "close_ok p" using f by (simp add: close_ok_def)
  moreover have "calls_ok p" using f by (simp add: calls_ok_def)
  moreover have "served p" using f by (simp add: served_def)
  moreover have "exited_done p" using f by (simp add: exited_done_def worker_init_def)
  ultimately show ?thesis by (simp add: pool_ok_def)
qed

lemma pool_runE:
  assumes "pool_run c es = Some s"
  obtains p where "NewWorkerPool c = Inr p" and "run es p = Some s"
  using assms by (auto simp: pool_run_def split: sum.splits)

lemma pool_run_ok:
  assumes "pool_run c es = Some s"
  shows "pool_ok s"
proof -
  from assms obtain p where p: "NewWorkerPool c = Inr p" "run es p = Some s"
    by (rule pool_runE)
  from p(1) have "pool_ok p" by (rule NewWorkerPool_ok)
  then show ?thesis using p(2) by (rule run_pool_ok)
qed

lemma run_append: "run (es @ es') s = (case run es s of None \<Rightarrow> None | Some s' \<Rightarrow> run es' s')"
  by (induction es arbitrary: s) (auto split: option.splits)

lemma exited_released:
  assumes "workers_ok s" and "w \<in> set (workers s)" and "pc w = WExited"
  shows "\<not> p1 w \<and> \<not> p2 w \<and> \<not> p3 w \<and> \<not> p4 w \<and> cmd w \<noteq> CmdRunning"
  using assms by (auto simp: workers_ok_def worker_ok_def released_def)

lemma worker_step_moves:
  assumes "worker_step c t e w = Some w'" and "pc w' \<noteq> pc w" and "local_event e = Some i"
  shows "(pc w = WSpawn \<and> (\<exists>x. e = Spawn i x)) \<or> (pc w = WEncode \<and> (\<exists>x. e = Encode i x))
    \<or> (pc w = WDecode \<and> (\<exists>x. e = Decode i x)) \<or> (pc w = WStopTimer \<and> e = StopGuard i)
    \<or> (pc w = WWait \<and> e = CmdWait i) \<or> (pc w = WBackoff \<and> e = BackoffOver i)"
proof (cases e)
  case (Encode j x)
  with assms show ?thesis by (cases x) (auto split: if_splits)
next
  case (Decode j x)
  with assms show ?thesis by (cases x) (auto split: if_splits)
qed (use assms in \<open>auto split: if_splits timer_state.splits\<close>)

lemma step_moves:
  assumes "step e s = Some s'" and "i < length (workers s)"
    and "pc (workers s' ! i) \<noteq> pc (workers s ! i)"
  shows "(pc (workers s ! i) = WSpawn \<and> (\<exists>x. e = Spawn i x))
    \<or> (pc (workers s ! i) = WEncode \<and> (\<exists>x. e = Encode i x))
    \<or> (pc (workers s ! i) = WDecode \<and> (\<exists>x. e = Decode i x))
    \<or> (pc (workers s ! i) = WStopTimer \<and> e = StopGuard i)
    \<or> (pc (workers s ! i) = WWait \<and> e = CmdWait i)
    \<or> (pc (workers s ! i) = WBackoff \<and> (e = BackoffOver i \<or> e = WorkerDone i \<and> ctx_done s))
    \<or> (pc (workers s ! i) = WReady
          \<and> ((\<exists>k. e = Accept k i) \<or> e = WorkerDone i \<and> ctx_done s))
    \<or> (sending (pc (workers s ! i)) \<and> (e = Reply i \<or> e = WorkerDone i \<and> ctx_done s))"
proof -
  from step_worker [OF assms(1,2)] assms(3)
  have "worker_change e s i (workers s' ! i)" by auto
  then consider
    (loc) "local_event e = Some i"
      "worker_step (cfg s) (now s) e (workers s ! i) = Some (workers s' ! i)"
    | (oth) "(pc (workers s ! i) = WBackoff \<and> e = WorkerDone i \<and> ctx_done s)
    \<or> (pc (workers s ! i) = WReady
          \<and> ((\<exists>k. e = Accept k i) \<or> e = WorkerDone i \<and> ctx_done s))
    \<or> (sending (pc (workers s ! i)) \<and> (e = Reply i \<or> e = WorkerDone i \<and> ctx_done s))"
    unfolding worker_change_def by blast
  then show ?thesis
  proof cases
    case loc
    from worker_step_moves [OF loc(2) assms(3) loc(1)] show ?thesis by blast
  next
    case oth
    then show ?thesis by blast
  qed
qed

lemma run_invariant:
  assumes "P s" and "\<And>e s s'. P s \<Longrightarrow> step e s = Some s' \<Longrightarrow> P s'" and "run es s = Some s'"
  shows "P s'"
  using assms(1,3)
proof (induction es arbitrary: s)
  case Nil
  then show ?case by simp
next
  case (Cons e es)
  from Cons.prems(2) obtain s1 where s1: "step e s = Some s1" "run es s1 = Some s'"
    by (auto split: option.splits)
  from Cons.prems(1) s1(1) have "P s1" by (rule assms(2))
  then show ?case using s1(2) by (rule Cons.IH)
qed

lemma closed_all_exited:
  assumes "pool_ok s" and "0 < closed s" and "i < length (workers s)"
  shows "pc (workers s ! i) = WExited"
proof -
  from assms(1,2) have "wg_ok s" "wg s = 0" by (simp_all add: pool_ok_def close_ok_def)
  then show ?thesis using assms(3) by (rule wg_zero_exited)
qed

lemma step_drained:
  assumes "drained k s" and "step e s = Some s'"
  shows "drained k s'"
proof -
  from assms(1) have k: "k < length (calls s)" and r: "refused (st (calls s ! k))"
    and nr: "\<forall>i < length (workers s). pc (workers s ! i) \<noteq> WReady"
    and c: "0 < closed s" and ok: "pool_ok s"
    by (simp_all add: drained_def)
  from ok assms(2) have ok': "pool_ok s'" by (rule step_pool_ok)
  from c assms(2) have c': "0 < closed s'" using step_closed_mono [of e s s'] by simp
  from k assms(2) have k': "k < length (calls s')" using step_length_calls [of e s s'] by simp
  have nr': "\<forall>i < length (workers s'). pc (workers s' ! i) \<noteq> WReady"
    using closed_all_exited [OF ok' c'] by simp
  from step_call [OF assms(2) k] have "refused (st (calls s' ! k))"
  proof
    assume "calls s' ! k = calls s ! k"
    with r show ?thesis by simp
  next
    assume "\<exists>x. calls s' ! k = (calls s ! k)\<lparr>st := x\<rparr> \<and> call_change e s k x"
    then obtain x where x: "calls s' ! k = (calls s ! k)\<lparr>st := x\<rparr>" "call_change e s k x"
      by blast
    from x(2) r nr have "refused x"
      unfolding call_change_def refused_def by auto
    with x(1) show ?thesis by simp
  qed
  with k' nr' c' ok' show ?thesis by (simp add: drained_def)
qed

lemma step_idle:
  assumes "idle s" and "step e s = Some s'"
  shows "idle s'"
proof -
  from assms(1) have w: "workers s = []" by (simp add: idle_def)
  with assms(2) have w': "workers s' = []" using step_length_workers [of e s s'] by simp
  have "refused (st (calls s' ! k))" if k': "k < length (calls s')" for k
  proof (cases "k < length (calls s)")
    case True
    with assms(1) have r: "refused (st (calls s ! k))" by (simp add: idle_def)
    from step_call [OF assms(2) True] show ?thesis
    proof
      assume "calls s' ! k = calls s ! k"
      with r show ?thesis by simp
    next
      assume "\<exists>x. calls s' ! k = (calls s ! k)\<lparr>st := x\<rparr> \<and> call_change e s k x"
      then obtain x where x: "calls s' ! k = (calls s ! k)\<lparr>st := x\<rparr>" "call_change e s k x"
        by blast
      from x(2) w have "refused x" unfolding call_change_def refused_def by auto
      with x(1) show ?thesis by simp
    qed
  next
    case False
    with assms(2) k' have "st (calls s' ! k) = Handoff" by (rule step_calls_length)
    then show ?thesis by (simp add: refused_def)
  qed
  with w' show ?thesis by (simp add: idle_def)
qed

lemma worker_spawn_pc: "x \<noteq> Started \<Longrightarrow> pc (worker_spawn x w) = WWait"
  by (cases x) (simp_all add: leave_inner_def)

lemma worker_step_CmdWait_pc: "worker_step c t (CmdWait j) w = Some w' \<Longrightarrow> pc w' = WBackoff"
  by (auto split: if_splits)

lemma worker_step_BackoffOver_pc:
  "worker_step c t (BackoffOver j) w = Some w' \<Longrightarrow> pc w' = WSpawn"
  by (auto split: if_splits)

lemma step_discarded:
  assumes "step e s = Some s'" and "i < length (workers s)"
    and "discarded (pc (workers s ! i))" and "e \<noteq> Spawn i Started"
  shows "discarded (pc (workers s' ! i))"
proof (cases "pc (workers s' ! i) = pc (workers s ! i)")
  case True
  with assms(3) show ?thesis by simp
next
  case False
  from step_worker [OF assms(1,2)] False
  have "worker_change e s i (workers s' ! i)" by auto
  then consider
    (loc) "local_event e = Some i"
      "worker_step (cfg s) (now s) e (workers s ! i) = Some (workers s' ! i)"
    | (acc) "pc (workers s ! i) = WReady"
    | (lea) "workers s' ! i = leave_inner (workers s ! i)"
    | (rep) "workers s' ! i = after_send (workers s ! i)" "pc (workers s ! i) \<noteq> WSendResp"
    | (snd) "pc (workers s ! i) = WSendResp"
    | (ext) "pc (workers s' ! i) = WExited"
    unfolding worker_change_def by force
  then show ?thesis
  proof cases
    case loc
    from worker_step_moves [OF loc(2) False loc(1)] assms(3)
    consider x where "e = Spawn i x" "pc (workers s ! i) = WSpawn"
      | "e = CmdWait i" "pc (workers s ! i) = WWait"
      | "e = BackoffOver i" "pc (workers s ! i) = WBackoff"
      by (auto simp: discarded_def)
    then show ?thesis
    proof cases
      case 1
      with assms(4) have "x \<noteq> Started" by simp
      then have "pc (worker_spawn x (workers s ! i)) = WWait" by (rule worker_spawn_pc)
      moreover from 1 loc(2) have "workers s' ! i = worker_spawn x (workers s ! i)" by simp
      ultimately show ?thesis by (simp add: discarded_def)
    next
      case 2
      with loc(2) have "worker_step (cfg s) (now s) (CmdWait i) (workers s ! i)
          = Some (workers s' ! i)" by simp
      then have "pc (workers s' ! i) = WBackoff" by (rule worker_step_CmdWait_pc)
      then show ?thesis by (simp add: discarded_def)
    next
      case 3
      with loc(2) have "worker_step (cfg s) (now s) (BackoffOver i) (workers s ! i)
          = Some (workers s' ! i)" by simp
      then have "pc (workers s' ! i) = WSpawn" by (rule worker_step_BackoffOver_pc)
      then show ?thesis by (simp add: discarded_def)
    qed
  next
    case acc
    with assms(3) show ?thesis by (simp add: discarded_def)
  next
    case lea
    then show ?thesis by (simp add: leave_inner_def discarded_def)
  next
    case rep
    then show ?thesis by (simp add: after_send_def leave_inner_def discarded_def)
  next
    case snd
    with assms(3) show ?thesis by (simp add: discarded_def)
  next
    case ext
    then show ?thesis by (simp add: discarded_def)
  qed
qed

lemma run_discarded:
  assumes "run es s = Some s'" and "i < length (workers s)"
    and "discarded (pc (workers s ! i))" and "Spawn i Started \<notin> set es"
  shows "discarded (pc (workers s' ! i))"
  using assms
proof (induction es arbitrary: s)
  case Nil
  then show ?case by simp
next
  case (Cons e es)
  from Cons.prems(1) obtain s1 where s1: "step e s = Some s1" "run es s1 = Some s'"
    by (auto split: option.splits)
  from Cons.prems(4) have ne: "e \<noteq> Spawn i Started" "Spawn i Started \<notin> set es" by auto
  from s1(1) Cons.prems(2,3) ne(1) have d: "discarded (pc (workers s1 ! i))"
    by (rule step_discarded)
  from s1(1) Cons.prems(2) have "i < length (workers s1)"
    using step_length_workers [of e s s1] by simp
  with s1(2) show ?case using d ne(2) by (rule Cons.IH)
qed

lemma respawn_run:
  assumes "i < length (workers s)" and "pc (workers s ! i) = WWait"
  shows "\<exists>s'. run (respawn_trace i) s = Some s' \<and> pc (workers s' ! i) = WReady
     \<and> cmd (workers s' ! i) = CmdRunning \<and> p2 (workers s' ! i) \<and> p3 (workers s' ! i)
     \<and> timer (workers s' ! i) = NoTimer"
  using assms by (simp add: respawn_trace_def local_step_def set_worker_def)







section \<open>The outcome of Dispatch\<close>



section \<open>Dispatch before the handoff\<close>

text \<open>
  Claim C3 as stated fails. Close has returned; a call of Dispatch with timeout 0 is then
  made; both \<open>t.C\<close> and \<open>workerCtx.Done()\<close> are ready in its first select, and the
  call can return \<open>ErrWorkerPoolBusy\<close>.
\<close>

theorem dispatch_after_close_counterexample:
  "map_option closed (pool_run cfg_one close_trace) = Some 1
   \<and> map_option (call_st 0) (pool_run cfg_one after_close_trace) = Some Handoff
   \<and> map_option (call_st 0) (pool_run cfg_one (after_close_trace @ [DispatchTimeout 0]))
       = Some (Returned JanetResponse_zero (Some ErrWorkerPoolBusy))"
  by code_simp

text \<open>
  Claim C3, amended. For a call in its first select, in a state a run of a pool reaches:
  the timeout case is ready exactly when the handoff timeout has elapsed and the
  cancellation case exactly when the context is cancelled; a step by which the call
  returns gives the zero response with \<open>ErrWorkerPoolBusy\<close> (the timeout has elapsed) or
  with \<open>ErrWorkerPoolClosed\<close> (the context is cancelled), so each error is the only one
  possible when the other case is not ready. Once a call of Close has returned, the
  context is cancelled, no worker accepts the call, and in every continuation the call is
  still in its first select or has returned one of the two errors.
\<close>

theorem handoff_failure:
  assumes "pool_run c es = Some s" and "k < length (calls s)" and "st (calls s ! k) = Handoff"
  shows "(step (DispatchTimeout k) s \<noteq> None \<longleftrightarrow> deadline (calls s ! k) \<le> now s)
    \<and> (step (DispatchClosed k) s \<noteq> None \<longleftrightarrow> ctx_done s)
    \<and> (\<forall>e s' r x. step e s = Some s' \<and> st (calls s' ! k) = Returned r x \<longrightarrow>
          r = JanetResponse_zero
          \<and> ((e = DispatchTimeout k \<and> x = Some ErrWorkerPoolBusy
                \<and> deadline (calls s ! k) \<le> now s)
             \<or> (e = DispatchClosed k \<and> x = Some ErrWorkerPoolClosed \<and> ctx_done s)))
    \<and> (0 < closed s \<longrightarrow>
          ctx_done s \<and> (\<forall>i. step (Accept k i) s = None)
          \<and> (\<forall>es' s'. run es' s = Some s' \<longrightarrow> refused (st (calls s' ! k))))"
proof -
  from assms(1) have ok: "pool_ok s" by (rule pool_run_ok)
  have a: "step (DispatchTimeout k) s \<noteq> None \<longleftrightarrow> deadline (calls s ! k) \<le> now s"
    using assms(2,3) by simp
  have b: "step (DispatchClosed k) s \<noteq> None \<longleftrightarrow> ctx_done s"
    using assms(2,3) by simp
  have d: "r = JanetResponse_zero
          \<and> ((e = DispatchTimeout k \<and> x = Some ErrWorkerPoolBusy
                \<and> deadline (calls s ! k) \<le> now s)
             \<or> (e = DispatchClosed k \<and> x = Some ErrWorkerPoolClosed \<and> ctx_done s))"
    if e: "step e s = Some s'" and r: "st (calls s' ! k) = Returned r x" for e s' r x
  proof -
    from step_call [OF e assms(2)] assms(3) r
    obtain y where y: "calls s' ! k = (calls s ! k)\<lparr>st := y\<rparr>" "call_change e s k y"
      by auto
    from y(1) r have "y = Returned r x" by simp
    with y(2) assms(3) show ?thesis unfolding call_change_def by auto
  qed
  have f: "ctx_done s \<and> (\<forall>i. step (Accept k i) s = None)
          \<and> (\<forall>es' s'. run es' s = Some s' \<longrightarrow> refused (st (calls s' ! k)))"
    if c: "0 < closed s"
  proof -
    from ok c have x: "\<forall>i < length (workers s). pc (workers s ! i) = WExited"
      using closed_all_exited by blast
    then have acc: "\<forall>i. step (Accept k i) s = None" by auto
    from ok c have cd: "ctx_done s" by (simp add: pool_ok_def close_ok_def)
    from x assms(2,3) c ok have dr: "drained k s"
      by (simp add: drained_def refused_def)
    have "refused (st (calls s' ! k))" if "run es' s = Some s'" for es' s'
    proof -
      from dr step_drained that have "drained k s'" by (rule run_invariant)
      then show ?thesis by (simp add: drained_def)
    qed
    with acc cd show ?thesis by blast
  qed
  from a b d f show ?thesis by blast
qed

theorem handoff_failure_witness:
  "map_option (call_st 0) (pool_run cfg_one after_close_trace) = Some Handoff
   \<and> map_option closed (pool_run cfg_one after_close_trace) = Some 1
   \<and> map_option ctx_done (pool_run cfg_one after_close_trace) = Some True
   \<and> pool_run cfg_one (after_close_trace @ [Accept 0 0]) = None
   \<and> map_option (call_st 0) (pool_run cfg_one (after_close_trace @ [DispatchClosed 0]))
       = Some (Returned JanetResponse_zero (Some ErrWorkerPoolClosed))"
proof -
  have "case pool_run cfg_one after_close_trace of None \<Rightarrow> False
        | Some s \<Rightarrow> st (calls s ! 0) = Handoff \<and> closed s = 1 \<and> length (calls s) = 1"
    by code_simp
  then obtain s where s: "pool_run cfg_one after_close_trace = Some s"
    "st (calls s ! 0) = Handoff" "closed s = 1" "length (calls s) = 1"
    by (auto split: option.splits)
  from s have h: "0 < length (calls s)" "0 < closed s" by simp_all
  note t = handoff_failure [OF s(1) h(1) s(2)]
  from t h(2) have cd: "ctx_done s" and acc: "step (Accept 0 0) s = None" by blast+
  from t cd obtain s' where s': "step (DispatchClosed 0) s = Some s'" by auto
  from t h(2) have "refused (st (calls s' ! 0))" if "run [DispatchClosed 0] s = Some s'" for s'
    using that by blast
  with s' have "refused (st (calls s' ! 0))" by simp
  moreover from s' s(2) have "st (calls s' ! 0)
      = Returned JanetResponse_zero (Some ErrWorkerPoolClosed)"
    by (auto split: if_splits)
  ultimately show ?thesis using s s' cd acc
    by (auto simp: pool_run_def run_append call_st_def split: sum.splits)
qed

section \<open>Dispatch after the handoff\<close>



section \<open>Protocol errors\<close>

text \<open>
  Claim C4 as stated fails. The encode fails; before the caller is told, Close is called
  and the worker takes the cancellation case of its error select: the caller is never
  sent the wrapped error (it still waits, and then returns \<open>ErrWorkerPoolClosed\<close>), and
  the loop does not restart from spawning but exits.
\<close>

theorem protocol_error_cancelled_counterexample:
  "map_option (call_st 0) (pool_run cfg_one error_cancel_trace) = Some Waiting
   \<and> map_option (pc \<circ> worker_at 0) (pool_run cfg_one error_cancel_trace) = Some WExited
   \<and> map_option (call_st 0) (pool_run cfg_one (error_cancel_trace @ [DispatchClosed 0]))
       = Some (Returned JanetResponse_zero (Some ErrWorkerPoolClosed))"
  by code_simp

text \<open>
  Claim C4, amended. In a state a run of a pool reaches: a failed encode or decode puts
  the worker in its error select, offering the wrapped error. A worker in an error select
  holds the request and an error; the step by which it leaves is the delivery of that
  error, wrapped once more by Dispatch, to the call whose channel it holds, every other
  call being left as it is, or, if the context is cancelled, the cancellation case; either
  way the inner function returns, closing every pipe end. From then on the worker is
  in an error select, waiting for the child, backing off, at the top of its loop or
  gone, until it starts a new child: it never serves on the old one. A worker that waits
  for the child can go through the wait, the backoff and the spawning to its first select
  with a child that runs and pipes that are open, and a worker is gone only if the
  context is cancelled.
\<close>

theorem protocol_error_discards_worker:
  assumes "pool_run c es = Some s" and "i < length (workers s)"
  shows "(\<forall>x s'. step (Encode i (Some x)) s = Some s' \<longrightarrow>
            pc (workers s' ! i) = WEncodeErr
            \<and> out (workers s' ! i)
                = \<lparr>Err = Some (Errorf ''error writing to worker process'' x),
                   Resp = JanetResponse_zero\<rparr>)
    \<and> (\<forall>x s'. step (Decode i (Inl x)) s = Some s' \<longrightarrow>
            pc (workers s' ! i) = WDecodeErr
            \<and> out (workers s' ! i)
                = \<lparr>Err = Some (Errorf ''decoding worker process response'' x),
                   Resp = JanetResponse_zero\<rparr>)
    \<and> (pc (workers s ! i) = WEncodeErr \<or> pc (workers s ! i) = WDecodeErr \<longrightarrow>
          (\<exists>q x. workReq (workers s ! i) = Some q \<and> Err (out (workers s ! i)) = Some x
             \<and> (\<forall>e s'. step e s = Some s' \<and> pc (workers s' ! i) \<noteq> pc (workers s ! i) \<longrightarrow>
                   workers s' ! i = leave_inner (workers s ! i)
                   \<and> ((e = Reply i
                        \<and> st (calls s' ! RespChan q)
                            = Returned JanetResponse_zero (Some (Errorf ''request failed'' x))
                        \<and> (\<forall>k. k \<noteq> RespChan q \<longrightarrow> calls s' ! k = calls s ! k))
                      \<or> (e = WorkerDone i \<and> ctx_done s))))
          \<and> (\<forall>es' s'. run es' s = Some s' \<and> Spawn i Started \<notin> set es' \<longrightarrow>
                discarded (pc (workers s' ! i))))
    \<and> (pc (workers s ! i) = WWait \<longrightarrow>
          (\<exists>s'. run (respawn_trace i) s = Some s' \<and> pc (workers s' ! i) = WReady
             \<and> cmd (workers s' ! i) = CmdRunning \<and> p2 (workers s' ! i) \<and> p3 (workers s' ! i)
             \<and> timer (workers s' ! i) = NoTimer))
    \<and> (pc (workers s ! i) = WExited \<longrightarrow> ctx_done s)"
proof -
  from assms(1) have ok: "pool_ok s" by (rule pool_run_ok)
  then have wok: "workers_ok s" and ex: "exited_done s" by (simp_all add: pool_ok_def)
  from wok assms(2) have pok: "pc_ok (pc (workers s ! i)) (workers s ! i)"
    using workers_ok_nth worker_ok_def by blast
  have a: "\<forall>x s'. step (Encode i (Some x)) s = Some s' \<longrightarrow>
            pc (workers s' ! i) = WEncodeErr
            \<and> out (workers s' ! i)
                = \<lparr>Err = Some (Errorf ''error writing to worker process'' x),
                   Resp = JanetResponse_zero\<rparr>"
    by (auto simp: local_step_def split: if_splits)
  have b: "\<forall>x s'. step (Decode i (Inl x)) s = Some s' \<longrightarrow>
            pc (workers s' ! i) = WDecodeErr
            \<and> out (workers s' ! i)
                = \<lparr>Err = Some (Errorf ''decoding worker process response'' x),
                   Resp = JanetResponse_zero\<rparr>"
    by (auto simp: local_step_def split: if_splits)
  have d: "(\<exists>q x. workReq (workers s ! i) = Some q \<and> Err (out (workers s ! i)) = Some x
             \<and> (\<forall>e s'. step e s = Some s' \<and> pc (workers s' ! i) \<noteq> pc (workers s ! i) \<longrightarrow>
                   workers s' ! i = leave_inner (workers s ! i)
                   \<and> ((e = Reply i
                        \<and> st (calls s' ! RespChan q)
                            = Returned JanetResponse_zero (Some (Errorf ''request failed'' x))
                        \<and> (\<forall>k. k \<noteq> RespChan q \<longrightarrow> calls s' ! k = calls s ! k))
                      \<or> (e = WorkerDone i \<and> ctx_done s))))
          \<and> (\<forall>es' s'. run es' s = Some s' \<and> Spawn i Started \<notin> set es' \<longrightarrow>
                discarded (pc (workers s' ! i)))"
    if p: "pc (workers s ! i) = WEncodeErr \<or> pc (workers s ! i) = WDecodeErr"
  proof -
    from p pok have "engaged (workers s ! i)" "Err (out (workers s ! i)) \<noteq> None" by auto
    then obtain q x where q: "workReq (workers s ! i) = Some q"
      and x: "Err (out (workers s ! i)) = Some x"
      by (auto simp: engaged_def)
    from x have dr: "dispatch_result (out (workers s ! i))
        = Returned JanetResponse_zero (Some (Errorf ''request failed'' x))"
      by (simp add: dispatch_result_def)
    from p have as: "after_send (workers s ! i) = leave_inner (workers s ! i)"
      by (auto simp: after_send_def)
    have m: "workers s' ! i = leave_inner (workers s ! i)
                   \<and> ((e = Reply i
                        \<and> st (calls s' ! RespChan q)
                            = Returned JanetResponse_zero (Some (Errorf ''request failed'' x))
                        \<and> (\<forall>k. k \<noteq> RespChan q \<longrightarrow> calls s' ! k = calls s ! k))
                      \<or> (e = WorkerDone i \<and> ctx_done s))"
      if e: "step e s = Some s'" and n: "pc (workers s' ! i) \<noteq> pc (workers s ! i)" for e s'
    proof -
      from step_moves [OF e assms(2) n] p
      consider "e = Reply i" | "e = WorkerDone i" "ctx_done s" by auto
      then show ?thesis
      proof cases
        case 1
        with e have "step (Reply i) s = Some s'" by simp
        from Reply_result [OF this] q dr as 1 show ?thesis by auto
      next
        case 2
        with e p assms(2) have "workers s' ! i = leave_inner (workers s ! i)"
          by (auto simp: sending_def split: if_splits)
        with 2 show ?thesis by simp
      qed
    qed
    from p have "discarded (pc (workers s ! i))" by (auto simp: discarded_def)
    then have "discarded (pc (workers s' ! i))"
      if "run es' s = Some s'" and "Spawn i Started \<notin> set es'" for es' s'
      using run_discarded [OF that(1) assms(2) _ that(2)] by simp
    with q x m show ?thesis by blast
  qed
  have f: "pc (workers s ! i) = WWait \<longrightarrow>
          (\<exists>s'. run (respawn_trace i) s = Some s' \<and> pc (workers s' ! i) = WReady
             \<and> cmd (workers s' ! i) = CmdRunning \<and> p2 (workers s' ! i) \<and> p3 (workers s' ! i)
             \<and> timer (workers s' ! i) = NoTimer)"
    using respawn_run [OF assms(2)] by simp
  have g: "pc (workers s ! i) = WExited \<longrightarrow> ctx_done s"
    using ex assms(2) by (simp add: exited_done_def)
  from a b d f g show ?thesis by blast
qed

theorem protocol_error_discards_worker_witness:
  "map_option (pc \<circ> worker_at 0) (pool_run cfg_one error_trace) = Some WEncodeErr
   \<and> map_option (call_st 0) (pool_run cfg_one (error_trace @ [Reply 0]))
       = Some (Returned JanetResponse_zero
           (Some (Errorf ''request failed''
              (Errorf ''error writing to worker process'' (IOError ''broken pipe'')))))
   \<and> map_option (worker_at 0) (pool_run cfg_one (error_trace @ [Reply 0]))
       = map_option (leave_inner \<circ> worker_at 0) (pool_run cfg_one error_trace)
   \<and> map_option (pc \<circ> worker_at 0) (pool_run cfg_one (error_trace @ [Reply 0])) = Some WWait"
proof -
  have "case pool_run cfg_one error_trace of None \<Rightarrow> False
        | Some s \<Rightarrow> pc (workers s ! 0) = WEncodeErr \<and> length (workers s) = 1
            \<and> workReq (workers s ! 0) = Some \<lparr>Req = req_a, RespChan = 0\<rparr>
            \<and> Err (out (workers s ! 0))
                = Some (Errorf ''error writing to worker process'' (IOError ''broken pipe''))"
    by code_simp
  then obtain s where s: "pool_run cfg_one error_trace = Some s"
    "pc (workers s ! 0) = WEncodeErr" "length (workers s) = 1"
    "workReq (workers s ! 0) = Some \<lparr>Req = req_a, RespChan = 0\<rparr>"
    "Err (out (workers s ! 0))
       = Some (Errorf ''error writing to worker process'' (IOError ''broken pipe''))"
    by (auto split: option.splits)
  have "pool_run cfg_one (error_trace @ [Reply 0]) \<noteq> None" by code_simp
  with s(1) obtain s' where s': "step (Reply 0) s = Some s'"
    "pool_run cfg_one (error_trace @ [Reply 0]) = Some s'"
    by (auto simp: pool_run_def run_append split: sum.splits option.splits)
  from s(3) have i: "0 < length (workers s)" by simp
  from s'(1) have n: "pc (workers s' ! 0) \<noteq> pc (workers s ! 0)"
    using Reply_result [OF s'(1)] s(2) by (auto simp: after_send_def leave_inner_def)
  from protocol_error_discards_worker [OF s(1) i] s(2)
  obtain q x where qx: "workReq (workers s ! 0) = Some q" "Err (out (workers s ! 0)) = Some x"
    and m: "\<forall>e s'. step e s = Some s' \<and> pc (workers s' ! 0) \<noteq> pc (workers s ! 0) \<longrightarrow>
               workers s' ! 0 = leave_inner (workers s ! 0)
               \<and> ((e = Reply 0
                    \<and> st (calls s' ! RespChan q)
                        = Returned JanetResponse_zero (Some (Errorf ''request failed'' x))
                    \<and> (\<forall>k. k \<noteq> RespChan q \<longrightarrow> calls s' ! k = calls s ! k))
                  \<or> (e = WorkerDone 0 \<and> ctx_done s))"
    by blast
  from m s'(1) n have "workers s' ! 0 = leave_inner (workers s ! 0)
      \<and> st (calls s' ! RespChan q)
           = Returned JanetResponse_zero (Some (Errorf ''request failed'' x))"
    by blast
  moreover from qx s(4,5) have "RespChan q = 0"
    and "x = Errorf ''error writing to worker process'' (IOError ''broken pipe'')"
    by auto
  ultimately have r: "workers s' ! 0 = leave_inner (workers s ! 0)"
    "st (calls s' ! 0) = Returned JanetResponse_zero
           (Some (Errorf ''request failed''
              (Errorf ''error writing to worker process'' (IOError ''broken pipe''))))"
    by simp_all
  from r(1) have "pc (workers s' ! 0) = WWait" by (simp add: leave_inner_def)
  with s s' r show ?thesis by (simp add: call_st_def worker_at_def)
qed

section \<open>Cancellation and the blocking points of a worker\<close>

text \<open>
  Claim C5 as stated fails. With the context cancelled and worker 0 inside
  \<open>encoder.Encode\<close>, the worker has no step that observes the cancellation, and its
  timer is not due: only the return of the call itself moves it.
\<close>

theorem encode_ignores_cancellation_counterexample:
  "map_option (pc \<circ> worker_at 0) (pool_run cfg_one encode_cancel_trace) = Some WEncode
   \<and> map_option ctx_done (pool_run cfg_one encode_cancel_trace) = Some True
   \<and> pool_run cfg_one (encode_cancel_trace @ [WorkerDone 0]) = None
   \<and> pool_run cfg_one (encode_cancel_trace @ [GuardFires 0]) = None"
  by code_simp

text \<open>
  Claim C5, amended. Once the context is cancelled, a worker in one of its selects (the
  wait on the dispatch channel, the three sends on the response channel, the backoff
  sleep) can leave at once by the cancellation case. A worker inside \<open>encoder.Encode\<close>,
  \<open>decoder.Decode\<close> or \<open>cmd.Wait()\<close> has no such step: only the return of that call
  moves it.
\<close>

theorem cancellation_observed_at_selects:
  assumes "i < length (workers s)" and "ctx_done s"
  shows "(pc (workers s ! i) = WReady \<or> sending (pc (workers s ! i)) \<longrightarrow>
           step (WorkerDone i) s = Some (set_worker i (leave_inner (workers s ! i)) s))
    \<and> (pc (workers s ! i) = WBackoff \<longrightarrow>
           step (WorkerDone i) s =
             Some ((set_worker i ((workers s ! i)\<lparr>pc := WExited\<rparr>) s)\<lparr>wg := wg s - 1\<rparr>))
    \<and> (pc (workers s ! i) = WEncode \<longrightarrow>
           step (WorkerDone i) s = None
           \<and> (\<forall>e s'. step e s = Some s' \<and> pc (workers s' ! i) \<noteq> WEncode \<longrightarrow>
                 (\<exists>x. e = Encode i x)))
    \<and> (pc (workers s ! i) = WDecode \<longrightarrow>
           step (WorkerDone i) s = None
           \<and> (\<forall>e s'. step e s = Some s' \<and> pc (workers s' ! i) \<noteq> WDecode \<longrightarrow>
                 (\<exists>x. e = Decode i x)))
    \<and> (pc (workers s ! i) = WWait \<longrightarrow>
           step (WorkerDone i) s = None
           \<and> (\<forall>e s'. step e s = Some s' \<and> pc (workers s' ! i) \<noteq> WWait \<longrightarrow>
                 e = CmdWait i))"
proof -
  have a: "pc (workers s ! i) = WReady \<or> sending (pc (workers s ! i)) \<longrightarrow>
           step (WorkerDone i) s = Some (set_worker i (leave_inner (workers s ! i)) s)"
    using assms by simp
  have b: "pc (workers s ! i) = WBackoff \<longrightarrow>
           step (WorkerDone i) s =
             Some ((set_worker i ((workers s ! i)\<lparr>pc := WExited\<rparr>) s)\<lparr>wg := wg s - 1\<rparr>)"
    using assms by (simp add: sending_def)
  have n: "step (WorkerDone i) s = None"
    if "pc (workers s ! i) = WEncode \<or> pc (workers s ! i) = WDecode \<or> pc (workers s ! i) = WWait"
    using that by (auto simp: sending_def)
  have m: "(pc (workers s ! i) = WEncode \<longrightarrow> (\<exists>x. e = Encode i x))
      \<and> (pc (workers s ! i) = WDecode \<longrightarrow> (\<exists>x. e = Decode i x))
      \<and> (pc (workers s ! i) = WWait \<longrightarrow> e = CmdWait i)"
    if "step e s = Some s'" and "pc (workers s' ! i) \<noteq> pc (workers s ! i)" for e s'
    using step_moves [OF that(1) assms(1) that(2)] by (auto simp: sending_def)
  have e: "pc (workers s ! i) = WEncode \<longrightarrow>
           step (WorkerDone i) s = None
           \<and> (\<forall>e s'. step e s = Some s' \<and> pc (workers s' ! i) \<noteq> WEncode \<longrightarrow>
                 (\<exists>x. e = Encode i x))"
    using n m by auto
  have d: "pc (workers s ! i) = WDecode \<longrightarrow>
           step (WorkerDone i) s = None
           \<and> (\<forall>e s'. step e s = Some s' \<and> pc (workers s' ! i) \<noteq> WDecode \<longrightarrow>
                 (\<exists>x. e = Decode i x))"
    using n m by auto
  have w: "pc (workers s ! i) = WWait \<longrightarrow>
           step (WorkerDone i) s = None
           \<and> (\<forall>e s'. step e s = Some s' \<and> pc (workers s' ! i) \<noteq> WWait \<longrightarrow>
                 e = CmdWait i)"
    using n m by auto
  from a b e d w show ?thesis by blast
qed

theorem cancellation_observed_at_selects_witness:
  "map_option (pc \<circ> worker_at 0) (pool_run cfg_one ready_cancel_trace) = Some WReady
   \<and> map_option ctx_done (pool_run cfg_one ready_cancel_trace) = Some True
   \<and> map_option (pc \<circ> worker_at 0) (pool_run cfg_one (ready_cancel_trace @ [WorkerDone 0]))
       = Some WWait"
proof -
  have "case pool_run cfg_one ready_cancel_trace of None \<Rightarrow> False
        | Some s \<Rightarrow> pc (workers s ! 0) = WReady \<and> ctx_done s \<and> length (workers s) = 1"
    by code_simp
  then obtain s where s: "pool_run cfg_one ready_cancel_trace = Some s"
    "pc (workers s ! 0) = WReady" "ctx_done s" "length (workers s) = 1"
    by (auto split: option.splits)
  from cancellation_observed_at_selects [of 0 s] s(2,3,4)
  have "step (WorkerDone 0) s = Some (set_worker 0 (leave_inner (workers s ! 0)) s)"
    by simp
  with s(1,4) have "map_option (pc \<circ> worker_at 0)
      (pool_run cfg_one (ready_cancel_trace @ [WorkerDone 0])) = Some WWait"
    by (auto simp: pool_run_def run_append worker_at_def leave_inner_def split: sum.splits)
  with s show ?thesis by (simp add: worker_at_def)
qed

section \<open>After a response is delivered\<close>

text \<open>
  Claim C6. In a state a run of a pool reaches, when worker \<open>i\<close> is in the success select
  and delivers, the call gets the decoded response with no error and the worker goes on
  to stop its timer. There, the child still runs and the timer has fired or is armed;
  the worker's next step is the check of \<open>Stop()\<close>: if the timer has fired the inner
  function returns (every pipe end is closed, the worker goes to wait for the child),
  and otherwise the timer is stopped and the worker is back in its first select with the
  same child and pipes. No other step moves the worker from there.
\<close>

theorem response_then_guard_check:
  assumes "pool_run c es = Some s" and "i < length (workers s)"
  shows "(pc (workers s ! i) = WSendResp \<longrightarrow>
      (\<forall>s'. step (Reply i) s = Some s' \<longrightarrow>
         pc (workers s' ! i) = WStopTimer
         \<and> (\<exists>q. workReq (workers s ! i) = Some q
               \<and> st (calls s' ! RespChan q) = Returned (Resp (out (workers s ! i))) None)))
   \<and> (pc (workers s ! i) = WStopTimer \<longrightarrow>
        cmd (workers s ! i) = CmdRunning
        \<and> (timer (workers s ! i) = Fired \<or> (\<exists>d. timer (workers s ! i) = Armed d))
        \<and> step (StopGuard i) s =
            Some (set_worker i
              (if timer (workers s ! i) = Fired then leave_inner (workers s ! i)
               else (workers s ! i)\<lparr>timer := Stopped, pc := WReady\<rparr>) s)
        \<and> (\<forall>e s'. step e s = Some s' \<and> pc (workers s' ! i) \<noteq> WStopTimer \<longrightarrow>
              e = StopGuard i))"
proof -
  from assms(1) have "pool_ok s" by (rule pool_run_ok)
  then have "workers_ok s" by (simp add: pool_ok_def)
  with assms(2) have ok: "pc_ok (pc (workers s ! i)) (workers s ! i)"
    using workers_ok_nth worker_ok_def by blast
  have a: "pc (workers s' ! i) = WStopTimer
         \<and> (\<exists>q. workReq (workers s ! i) = Some q
               \<and> st (calls s' ! RespChan q) = Returned (Resp (out (workers s ! i))) None)"
    if p: "pc (workers s ! i) = WSendResp" and r: "step (Reply i) s = Some s'" for s'
  proof -
    from ok p have "Err (out (workers s ! i)) = None" by simp
    then have "dispatch_result (out (workers s ! i)) = Returned (Resp (out (workers s ! i))) None"
      by (simp add: dispatch_result_def)
    with Reply_result [OF r] p show ?thesis by (auto simp: after_send_def)
  qed
  have b: "cmd (workers s ! i) = CmdRunning
        \<and> (timer (workers s ! i) = Fired \<or> (\<exists>d. timer (workers s ! i) = Armed d))
        \<and> step (StopGuard i) s =
            Some (set_worker i
              (if timer (workers s ! i) = Fired then leave_inner (workers s ! i)
               else (workers s ! i)\<lparr>timer := Stopped, pc := WReady\<rparr>) s)"
    if p: "pc (workers s ! i) = WStopTimer"
  proof -
    from ok p have e: "engaged (workers s ! i)" by simp
    then have t: "timer (workers s ! i) = Fired \<or> (\<exists>d. timer (workers s ! i) = Armed d)"
      by (cases "timer (workers s ! i)") (simp_all add: engaged_def)
    from e have "cmd (workers s ! i) = CmdRunning" by (simp add: engaged_def attached_def)
    moreover from t p assms(2) have "step (StopGuard i) s =
            Some (set_worker i
              (if timer (workers s ! i) = Fired then leave_inner (workers s ! i)
               else (workers s ! i)\<lparr>timer := Stopped, pc := WReady\<rparr>) s)"
      by (auto simp: local_step_def)
    ultimately show ?thesis using t by blast
  qed
  have d: "e = StopGuard i"
    if p: "pc (workers s ! i) = WStopTimer" and e: "step e s = Some s'"
      and n: "pc (workers s' ! i) \<noteq> WStopTimer" for e s'
    using step_moves [OF e assms(2)] p n by (auto simp: sending_def)
  from a b d show ?thesis by blast
qed

theorem response_then_guard_check_witness:
  "map_option (call_st 0) (pool_run cfg_one late_trace) = Some (Returned resp_a None)
   \<and> map_option (timer \<circ> worker_at 0) (pool_run cfg_one late_trace) = Some Fired
   \<and> map_option (pc \<circ> worker_at 0) (pool_run cfg_one (late_trace @ [StopGuard 0])) = Some WWait
   \<and> map_option (call_st 0) (pool_run cfg_one timely_trace) = Some (Returned resp_a None)
   \<and> map_option (pc \<circ> worker_at 0) (pool_run cfg_one (timely_trace @ [StopGuard 0]))
        = Some WReady
   \<and> map_option (cmd \<circ> worker_at 0) (pool_run cfg_one (timely_trace @ [StopGuard 0]))
        = Some CmdRunning"
proof -
  have "case pool_run cfg_one late_trace of None \<Rightarrow> False
        | Some s \<Rightarrow> st (calls s ! 0) = Returned resp_a None \<and> timer (workers s ! 0) = Fired
            \<and> pc (workers s ! 0) = WStopTimer \<and> length (workers s) = 1"
    by code_simp
  then obtain s where s: "pool_run cfg_one late_trace = Some s"
    "st (calls s ! 0) = Returned resp_a None" "timer (workers s ! 0) = Fired"
    "pc (workers s ! 0) = WStopTimer" "length (workers s) = 1"
    by (auto split: option.splits)
  from response_then_guard_check [OF s(1), of 0] s(3,4,5)
  have "step (StopGuard 0) s = Some (set_worker 0 (leave_inner (workers s ! 0)) s)"
    by simp
  with s(1,5) have l: "map_option (pc \<circ> worker_at 0) (pool_run cfg_one (late_trace @ [StopGuard 0]))
    = Some WWait"
    by (auto simp: pool_run_def run_append worker_at_def leave_inner_def split: sum.splits)
  have "case pool_run cfg_one timely_trace of None \<Rightarrow> False
        | Some s \<Rightarrow> st (calls s ! 0) = Returned resp_a None
            \<and> timer (workers s ! 0) = Armed 1000000000
            \<and> pc (workers s ! 0) = WStopTimer \<and> length (workers s) = 1"
    by code_simp
  then obtain u where u: "pool_run cfg_one timely_trace = Some u"
    "st (calls u ! 0) = Returned resp_a None" "timer (workers u ! 0) = Armed 1000000000"
    "pc (workers u ! 0) = WStopTimer" "length (workers u) = 1"
    by (auto split: option.splits)
  from response_then_guard_check [OF u(1), of 0] u(3,4,5)
  have "cmd (workers u ! 0) = CmdRunning" and "step (StopGuard 0) u =
     Some (set_worker 0 ((workers u ! 0)\<lparr>timer := Stopped, pc := WReady\<rparr>) u)"
    by simp_all
  with u(1,5) have t: "map_option (pc \<circ> worker_at 0) (pool_run cfg_one (timely_trace @ [StopGuard 0]))
        = Some WReady"
    "map_option (cmd \<circ> worker_at 0) (pool_run cfg_one (timely_trace @ [StopGuard 0]))
        = Some CmdRunning"
    by (auto simp: pool_run_def run_append worker_at_def split: sum.splits)
  from s u l t show ?thesis by (simp add: call_st_def worker_at_def)
qed

section \<open>Close\<close>

text \<open>
  Claim C7. In every state a run of a pool reaches: a call of Close cancels the context
  and then waits; its wait can end only when every worker goroutine has returned; a
  goroutine that has returned holds no open pipe end and no running child (the child was
  collected by \<open>cmd.Wait()\<close>); so once some call of Close has returned the context is
  cancelled and no worker, pipe or child is left. A later call of Close returns at once
  and changes nothing but the count of calls that returned.
\<close>

theorem Close_drains:
  assumes "pool_run c es = Some s"
  shows "step CloseCall s = Some (s\<lparr>ctx_done := True, closing := closing s + 1\<rparr>)
    \<and> (step CloseReturn s \<noteq> None
         \<longleftrightarrow> 0 < closing s \<and> (\<forall>w \<in> set (workers s). pc w = WExited))
    \<and> (\<forall>w \<in> set (workers s). pc w = WExited \<longrightarrow>
          \<not> p1 w \<and> \<not> p2 w \<and> \<not> p3 w \<and> \<not> p4 w \<and> cmd w \<noteq> CmdRunning)
    \<and> (0 < closed s \<longrightarrow> ctx_done s \<and> (\<forall>w \<in> set (workers s). pc w = WExited))
    \<and> (0 < closed s \<longrightarrow>
          run [CloseCall, CloseReturn] s = Some (s\<lparr>closed := closed s + 1\<rparr>))"
proof -
  from assms have ok: "pool_ok s" by (rule pool_run_ok)
  then have wok: "workers_ok s" and wg: "wg_ok s" and cl: "close_ok s"
    by (simp_all add: pool_ok_def)
  from wg have z: "wg s = 0 \<longleftrightarrow> (\<forall>w \<in> set (workers s). pc w = WExited)"
    by (simp add: wg_ok_def live_zero)
  have a: "step CloseCall s = Some (s\<lparr>ctx_done := True, closing := closing s + 1\<rparr>)"
    by simp
  have b: "step CloseReturn s \<noteq> None
         \<longleftrightarrow> 0 < closing s \<and> (\<forall>w \<in> set (workers s). pc w = WExited)"
    using z by simp
  have d: "\<forall>w \<in> set (workers s). pc w = WExited \<longrightarrow>
          \<not> p1 w \<and> \<not> p2 w \<and> \<not> p3 w \<and> \<not> p4 w \<and> cmd w \<noteq> CmdRunning"
    using wok exited_released by blast
  have e: "0 < closed s \<longrightarrow> ctx_done s \<and> (\<forall>w \<in> set (workers s). pc w = WExited)"
    using cl z by (simp add: close_ok_def)
  have f: "0 < closed s \<longrightarrow>
          run [CloseCall, CloseReturn] s = Some (s\<lparr>closed := closed s + 1\<rparr>)"
  proof
    assume "0 < closed s"
    with cl have "ctx_done s" "wg s = 0" by (simp_all add: close_ok_def)
    then show "run [CloseCall, CloseReturn] s = Some (s\<lparr>closed := closed s + 1\<rparr>)"
      by (cases s) simp
  qed
  from a b d e f show ?thesis by blast
qed

theorem Close_drains_witness:
  "\<exists>s. pool_run cfg_one close_trace = Some s \<and> closed s = 1 \<and> ctx_done s
       \<and> map pc (workers s) = [WExited]
       \<and> map cmd (workers s) = [CmdWaited]
       \<and> run [CloseCall, CloseReturn] s = Some (s\<lparr>closed := 2\<rparr>)"
proof -
  have "case pool_run cfg_one close_trace of None \<Rightarrow> False
        | Some s \<Rightarrow> closed s = 1 \<and> map cmd (workers s) = [CmdWaited]"
    by code_simp
  then obtain s where s: "pool_run cfg_one close_trace = Some s" "closed s = 1"
    "map cmd (workers s) = [CmdWaited]"
    by (auto split: option.splits)
  from Close_drains [OF s(1)] s(2)
  have "ctx_done s" and x: "\<forall>w \<in> set (workers s). pc w = WExited"
    and "run [CloseCall, CloseReturn] s = Some (s\<lparr>closed := closed s + 1\<rparr>)"
    by simp_all
  moreover from s(3) x have "map pc (workers s) = [WExited]"
    by (cases "workers s") auto
  ultimately show ?thesis using s by auto
qed

section \<open>A pool with no worker\<close>

text \<open>
  Claim C9 as stated fails. On a pool with no worker that has been closed, a call with a
  handoff timeout of 5 ns returns \<open>ErrWorkerPoolClosed\<close> at time 0, before the timeout
  has elapsed.
\<close>

theorem zero_workers_closed_counterexample:
  "map_option (call_st 0) (pool_run cfg_none [CloseCall, Call req_a 5, DispatchClosed 0])
     = Some (Returned JanetResponse_zero (Some ErrWorkerPoolClosed))
   \<and> map_option now (pool_run cfg_none [CloseCall, Call req_a 5, DispatchClosed 0]) = Some 0
   \<and> map_option (deadline \<circ> hd \<circ> calls)
        (pool_run cfg_none [CloseCall, Call req_a 5, DispatchClosed 0]) = Some 5"
  by code_simp

text \<open>
  Claim C9, amended. A configuration with \<open>NumWorkers = 0\<close> and a non-empty
  \<open>WorkerProc\<close> is accepted and gives a pool with no worker goroutine. In every run of it
  no call is ever accepted, and a call is in its first select, or has returned
  \<open>ErrWorkerPoolBusy\<close> after its handoff timeout elapsed, or has returned
  \<open>ErrWorkerPoolClosed\<close> after the pool was closed; it never returns a response.
\<close>

theorem zero_workers_never_serve:
  assumes "NumWorkers c = 0" and "WorkerProc c \<noteq> []"
  shows "(\<exists>p. NewWorkerPool c = Inr p \<and> workers p = [] \<and> wg p = 0)
    \<and> (\<forall>es s k. pool_run c es = Some s \<and> k < length (calls s) \<longrightarrow>
          (\<forall>i. step (Accept k i) s = None)
          \<and> (st (calls s ! k) = Handoff
             \<or> (st (calls s ! k) = Returned JanetResponse_zero (Some ErrWorkerPoolBusy)
                  \<and> deadline (calls s ! k) \<le> now s)
             \<or> (st (calls s ! k) = Returned JanetResponse_zero (Some ErrWorkerPoolClosed)
                  \<and> ctx_done s)))"
proof -
  from assms obtain p where p: "NewWorkerPool c = Inr p"
    using NewWorkerPool_succeeds [of c] by auto
  from NewWorkerPool_Inr [OF p] assms(1) have p0: "workers p = []" "wg p = 0" "calls p = []"
    by simp_all
  then have ip: "idle p" by (simp add: idle_def)
  have "(\<forall>i. step (Accept k i) s = None)
          \<and> (st (calls s ! k) = Handoff
             \<or> (st (calls s ! k) = Returned JanetResponse_zero (Some ErrWorkerPoolBusy)
                  \<and> deadline (calls s ! k) \<le> now s)
             \<or> (st (calls s ! k) = Returned JanetResponse_zero (Some ErrWorkerPoolClosed)
                  \<and> ctx_done s))"
    if r: "pool_run c es = Some s" and k: "k < length (calls s)" for es s k
  proof -
    from r p have "run es p = Some s" by (simp add: pool_run_def)
    with ip step_idle have i: "idle s" by (rule run_invariant)
    then have a: "\<forall>i. step (Accept k i) s = None" by (simp add: idle_def)
    from r have "calls_ok s" using pool_run_ok pool_ok_def by blast
    with k have "result_ok (now s) (ctx_done s) (deadline (calls s ! k)) (st (calls s ! k))"
      by (simp add: calls_ok_def)
    moreover from i k have "refused (st (calls s ! k))" by (simp add: idle_def)
    ultimately show ?thesis using a by (auto simp: refused_def)
  qed
  with p p0 show ?thesis by blast
qed

theorem zero_workers_never_serve_witness:
  "NumWorkers cfg_none = 0 \<and> WorkerProc cfg_none \<noteq> []
   \<and> map_sum id workers (NewWorkerPool cfg_none) = Inr []
   \<and> pool_run cfg_none [Call req_a 5, Accept 0 0] = None
   \<and> map_option (call_st 0) (pool_run cfg_none [Call req_a 5, Tick 5, DispatchTimeout 0])
       = Some (Returned JanetResponse_zero (Some ErrWorkerPoolBusy))"
proof -
  have h: "NumWorkers cfg_none = 0" "WorkerProc cfg_none \<noteq> []"
    by (simp_all add: cfg_none_def cfg_echo_def)
  note t = zero_workers_never_serve [OF h]
  from t obtain p where p: "NewWorkerPool cfg_none = Inr p" "workers p = []" by blast
  have "case pool_run cfg_none [Call req_a 5] of None \<Rightarrow> False
        | Some s \<Rightarrow> length (calls s) = 1"
    by code_simp
  then obtain s where s: "pool_run cfg_none [Call req_a 5] = Some s" "length (calls s) = 1"
    by (auto split: option.splits)
  from s(2) have "0 < length (calls s)" by simp
  with t s(1) have "step (Accept 0 0) s = None" by blast
  with s(1) have a: "pool_run cfg_none ([Call req_a 5] @ [Accept 0 0]) = None"
    by (auto simp: pool_run_def run_append split: sum.splits)
  have b: "map_option (call_st 0) (pool_run cfg_none [Call req_a 5, Tick 5, DispatchTimeout 0])
       = Some (Returned JanetResponse_zero (Some ErrWorkerPoolBusy))"
    by code_simp
  from h p a b show ?thesis by simp
qed

end
